theory Spec2Isabelle
  imports Main "HOL-Library.Word" "HOL-Library.Multiset"
begin

section \<open>The buffer pool of \<open>src/storage/buffer/buffer_pool.cpp\<close>\<close>

text \<open>
  The pool is embedded as run by one thread: every atomic is a plain field, the
  lock-free queue is a FIFO list, \<open>weak_ptr\<close> is an address into a store of block
  handles that answers \<open>None\<close> once the handle has been destroyed.
\<close>

subsection \<open>Data\<close>

text \<open>\<open>idx_t\<close> is an unsigned 64-bit integer: every counter wraps around.\<close>

type_synonym idx_t = "64 word"

text \<open>\<open>uint8_t(tag)\<close>, the index of a tag in \<open>memory_usage_per_tag\<close>.\<close>

type_synonym MemoryTag = nat

text \<open>The address a \<open>shared_ptr<BlockHandle>\<close> or \<open>weak_ptr<BlockHandle>\<close> points to.\<close>

type_synonym handle_ref = nat

datatype BlockState = BLOCK_UNLOADED | BLOCK_LOADED

text \<open>
  Modelled from the spec: the block handle, whose class is declared outside
  \<open>src/\<close>. Section 3 of the specification gives its attributes: \<open>alloc_size\<close>
  (the \<open>buffer->AllocSize()\<close> of the source), \<open>readers\<close>, \<open>eviction_timestamp\<close>,
  \<open>state\<close> and \<open>tag\<close>.
\<close>

record BlockHandle =
  alloc_size :: idx_t
  readers :: nat
  eviction_timestamp :: idx_t
  state :: BlockState
  tag :: MemoryTag

text \<open>
  \<open>struct BufferEvictionNode { weak_ptr<BlockHandle> handle; idx_t timestamp; }\<close>.
  The weak pointer is \<open>None\<close> when it is empty (default-constructed or moved from).
\<close>

record BufferEvictionNode =
  handle :: "handle_ref option"
  timestamp :: idx_t

text \<open>
  The members of \<open>BufferPool\<close> that the source file reads and writes, and next to
  them \<open>handles\<close>: the store of the block handles that are alive, owned by the
  callers of the pool. \<open>handles p a = None\<close> says that the handle at \<open>a\<close> has been
  destroyed, so that \<open>lock()\<close> on a weak pointer to it fails.
\<close>

record BufferPool =
  current_memory :: idx_t
  maximum_memory :: idx_t
  queue :: "BufferEvictionNode list"
  evict_queue_insertions :: idx_t
  total_dead_nodes :: idx_t
  purge_active :: bool
  purge_nodes :: "BufferEvictionNode list"
  memory_usage_per_tag :: "idx_t list"
  handles :: "handle_ref \<Rightarrow> BlockHandle option"

text \<open>
  The compile-time constants of \<open>buffer_pool.hpp\<close> and of the \<open>MemoryTag\<close>
  enumeration. Their declarations are not under \<open>src/\<close>, so they are parameters of
  the model: every function that reads one takes the record.
\<close>

record constants =
  INSERT_INTERVAL :: idx_t
  PURGE_SIZE_MULTIPLIER :: idx_t
  EARLY_OUT_MULTIPLIER :: idx_t
  ALIVE_NODE_MULTIPLIER :: idx_t
  MEMORY_TAG_COUNT :: nat
  EXTENSION :: MemoryTag

text \<open>
  Modelled from the spec: the values of the constants, which \<open>buffer_pool.hpp\<close>
  (not under \<open>src/\<close>) fixes. Section 4.6 of the specification suggests
  \<open>INSERT_INTERVAL = 1024\<close>, \<open>PURGE_SIZE_MULTIPLIER \<ge> 2\<close>, \<open>EARLY_OUT_MULTIPLIER \<ge> 4\<close>
  and \<open>ALIVE_NODE_MULTIPLIER \<ge> 4\<close>; the least such values are taken. The
  specification does not give the number of tags: two tags, the second of them
  \<open>EXTENSION\<close>, are enough for the concrete runs below.
\<close>

definition spec_defaults :: constants where
  "spec_defaults =
     \<lparr>INSERT_INTERVAL = 1024, PURGE_SIZE_MULTIPLIER = 2, EARLY_OUT_MULTIPLIER = 4,
      ALIVE_NODE_MULTIPLIER = 4, MEMORY_TAG_COUNT = 2, EXTENSION = 1\<rparr>"

text \<open>What the source can raise or trap on.\<close>

datatype error =
    OutOfMemoryException idx_t string
  | AssertionFailed
  | DivisionByZero

subsection \<open>The queue\<close>

text \<open>
  \<open>moodycamel::ConcurrentQueue\<close> used by a single thread: \<open>enqueue\<close> appends,
  \<open>try_dequeue\<close> removes the oldest element and fails exactly on the empty queue,
  the bulk operations do the same for a run of elements, \<open>size_approx\<close> is the
  number of elements as an \<open>idx_t\<close>.
\<close>

definition enqueue :: "BufferEvictionNode \<Rightarrow> BufferEvictionNode list \<Rightarrow> BufferEvictionNode list" where
  "enqueue n q = q @ [n]"

definition try_dequeue :: "BufferEvictionNode list \<Rightarrow> (BufferEvictionNode \<times> BufferEvictionNode list) option" where
  "try_dequeue q = (case q of [] \<Rightarrow> None | n # q' \<Rightarrow> Some (n, q'))"

definition try_dequeue_bulk :: "nat \<Rightarrow> BufferEvictionNode list \<Rightarrow> BufferEvictionNode list \<times> BufferEvictionNode list" where
  "try_dequeue_bulk n q = (take n q, drop n q)"

definition enqueue_bulk :: "BufferEvictionNode list \<Rightarrow> BufferEvictionNode list \<Rightarrow> BufferEvictionNode list" where
  "enqueue_bulk ns q = q @ ns"

definition size_approx :: "BufferEvictionNode list \<Rightarrow> idx_t" where
  "size_approx q = of_nat (length q)"

subsection \<open>Block handles\<close>

text \<open>
  Modelled from the spec: \<open>BlockHandle::CanUnload\<close>, defined outside \<open>src/\<close>.
  Section 3: a handle may be unloaded only when \<open>readers == 0\<close> and
  \<open>state == Loaded\<close>.
\<close>

definition BlockHandle_CanUnload :: "BlockHandle \<Rightarrow> bool" where
  "BlockHandle_CanUnload h = (state h = BLOCK_LOADED \<and> readers h = 0)"

text \<open>
  Modelled from the spec: \<open>BlockHandle::UnloadAndTakeBlock\<close> and
  \<open>BlockHandle::Unload\<close>, defined outside \<open>src/\<close>. Section 3: unloading decrements
  \<open>current_memory\<close> and the per-tag counter by exactly \<open>alloc_size\<close>, and the handle
  becomes Unloaded. Both do the same to the pool; the first also hands the buffer
  to the caller.
\<close>

definition DecreaseUsedMemory :: "MemoryTag \<Rightarrow> idx_t \<Rightarrow> BufferPool \<Rightarrow> BufferPool" where
  "DecreaseUsedMemory t sz p =
     p\<lparr>current_memory := current_memory p - sz,
       memory_usage_per_tag := (memory_usage_per_tag p)[t := memory_usage_per_tag p ! t - sz]\<rparr>"

definition UnloadAndTakeBlock :: "handle_ref \<Rightarrow> BlockHandle \<Rightarrow> BufferPool \<Rightarrow> BufferPool" where
  "UnloadAndTakeBlock a h p =
     (DecreaseUsedMemory (tag h) (alloc_size h) p)
       \<lparr>handles := (handles p)(a \<mapsto> h\<lparr>state := BLOCK_UNLOADED\<rparr>)\<rparr>"

definition Unload :: "handle_ref \<Rightarrow> BlockHandle \<Rightarrow> BufferPool \<Rightarrow> BufferPool" where
  "Unload a h p = UnloadAndTakeBlock a h p"

subsection \<open>Eviction nodes\<close>

text \<open>\<open>BufferEvictionNode::CanUnload\<close>, lines 15 to 21.\<close>

definition CanUnload :: "BufferEvictionNode \<Rightarrow> BlockHandle \<Rightarrow> bool" where
  "CanUnload n handle_p =
     (if timestamp n \<noteq> eviction_timestamp handle_p then False
      else BlockHandle_CanUnload handle_p)"

text \<open>
  \<open>handle.lock()\<close> against the store \<open>hs\<close> of live handles: the address and the
  handle if the handle is still alive.
\<close>

definition lock :: "(handle_ref \<Rightarrow> BlockHandle option) \<Rightarrow> BufferEvictionNode \<Rightarrow> (handle_ref \<times> BlockHandle) option" where
  "lock hs n =
     (case handle n of
        None \<Rightarrow> None
      | Some a \<Rightarrow> (case hs a of None \<Rightarrow> None | Some h \<Rightarrow> Some (a, h)))"

text \<open>\<open>BufferEvictionNode::TryGetBlockHandle\<close>, lines 23 to 35.\<close>

definition TryGetBlockHandle :: "(handle_ref \<Rightarrow> BlockHandle option) \<Rightarrow> BufferEvictionNode \<Rightarrow> (handle_ref \<times> BlockHandle) option" where
  "TryGetBlockHandle hs n =
     (case lock hs n of
        None \<Rightarrow> None
      | Some (a, handle_p) \<Rightarrow>
          if \<not> CanUnload n handle_p then None else Some (a, handle_p))"

subsection \<open>Construction and the getters\<close>

text \<open>
  \<open>BufferPool::BufferPool\<close>, lines 37 to 44. The loop writes 0 into each of the
  \<open>MEMORY_TAG_COUNT\<close> slots of the array, whose cells hold whatever \<open>raw\<close> holds
  before; the queue and the scratch vector start empty, and \<open>hs\<close> are the handles
  that exist.
\<close>

definition BufferPool_new :: "constants \<Rightarrow> idx_t list \<Rightarrow> (handle_ref \<Rightarrow> BlockHandle option) \<Rightarrow> idx_t \<Rightarrow> BufferPool" where
  "BufferPool_new c raw hs maximum_memory_p =
     \<lparr>current_memory = 0, maximum_memory = maximum_memory_p, queue = [],
      evict_queue_insertions = 0, total_dead_nodes = 0, purge_active = False,
      purge_nodes = [],
      memory_usage_per_tag = fold (\<lambda>i a. a[i := 0]) [0..<MEMORY_TAG_COUNT c] raw,
      handles = hs\<rparr>"

definition GetUsedMemory :: "BufferPool \<Rightarrow> idx_t" where
  "GetUsedMemory p = current_memory p"

definition GetMaxMemory :: "BufferPool \<Rightarrow> idx_t" where
  "GetMaxMemory p = maximum_memory p"

definition GetQueryMaxMemory :: "BufferPool \<Rightarrow> idx_t" where
  "GetQueryMaxMemory p = GetMaxMemory p"

text \<open>\<open>BufferPool::IncreaseUsedMemory\<close>, lines 70 to 73.\<close>

definition IncreaseUsedMemory :: "MemoryTag \<Rightarrow> idx_t \<Rightarrow> BufferPool \<Rightarrow> BufferPool" where
  "IncreaseUsedMemory t sz p =
     p\<lparr>current_memory := current_memory p + sz,
       memory_usage_per_tag := (memory_usage_per_tag p)[t := memory_usage_per_tag p ! t + sz]\<rparr>"

subsection \<open>Adding a hint\<close>

text \<open>
  \<open>BufferPool::AddToEvictionQueue\<close>, lines 48 to 68. The argument is a
  \<open>shared_ptr\<close>, so the handle is alive; the branch for a dead handle only makes
  the function total. \<open>D_ASSERT\<close> is a branch of its own. The result is the
  returned flag and the pool.
\<close>

definition AddToEvictionQueue :: "constants \<Rightarrow> handle_ref \<Rightarrow> BufferPool \<Rightarrow> error + (bool \<times> BufferPool)" where
  "AddToEvictionQueue c a p =
     (case handles p a of
        None \<Rightarrow> Inl AssertionFailed
      | Some h \<Rightarrow>
          if readers h \<noteq> 0 then Inl AssertionFailed
          else
            let ts = eviction_timestamp h + 1;
                p1 = p\<lparr>handles := (handles p)(a \<mapsto> h\<lparr>eviction_timestamp := ts\<rparr>)\<rparr>;
                evict_node = \<lparr>handle = Some a, timestamp = ts\<rparr>;
                p2 = p1\<lparr>queue := enqueue evict_node (queue p1)\<rparr>;
                p3 = (if ts \<noteq> 1 then p2\<lparr>total_dead_nodes := total_dead_nodes p2 + 1\<rparr> else p2);
                p4 = p3\<lparr>evict_queue_insertions := evict_queue_insertions p3 + 1\<rparr>
            in if evict_queue_insertions p4 \<ge> INSERT_INTERVAL c then Inr (True, p4)
               else Inr (False, p4))"

subsection \<open>Eviction\<close>

text \<open>
  Modelled from the spec: \<open>TempBufferPoolReservation\<close>, defined outside \<open>src/\<close>.
  Section 4.2: a reservation of \<open>n\<close> bytes increases both counters at once;
  \<open>resize(0)\<close> and the end of its scope give the bytes it still holds back.
\<close>

definition TempBufferPoolReservation :: "MemoryTag \<Rightarrow> idx_t \<Rightarrow> BufferPool \<Rightarrow> BufferPool" where
  "TempBufferPoolReservation t sz p = IncreaseUsedMemory t sz p"

definition Resize0 :: "MemoryTag \<Rightarrow> idx_t \<Rightarrow> BufferPool \<Rightarrow> BufferPool" where
  "Resize0 t held p = DecreaseUsedMemory t held p"

text \<open>
  \<open>BufferPool::EvictionResult\<close>: the flag and the reservation moved into it, here
  the number of bytes the reservation holds.
\<close>

record EvictionResult =
  success :: bool
  reservation :: idx_t

text \<open>
  \<open>BufferPool::TryDequeueWithoutConcurrentPurge\<close>, lines 139 to 155. With one
  thread the compare-and-exchange loop leaves at once when \<open>purge_active\<close> is
  false and never leaves when it is true: \<open>None\<close> is the call that spins forever.
\<close>

definition TryDequeueWithoutConcurrentPurge :: "BufferPool \<Rightarrow> (BufferEvictionNode option \<times> BufferPool) option" where
  "TryDequeueWithoutConcurrentPurge p =
     (if purge_active p then None
      else
        let p1 = p\<lparr>purge_active := True\<rparr> in
        (case try_dequeue (queue p1) of
           None \<Rightarrow> Some (None, p1\<lparr>purge_active := False\<rparr>)
         | Some (node, q') \<Rightarrow> Some (Some node, p1\<lparr>queue := q', purge_active := False\<rparr>)))"

text \<open>Lines 99 to 107: the plain dequeue, and the second try when it fails.\<close>

definition dequeue_node :: "BufferPool \<Rightarrow> (BufferEvictionNode option \<times> BufferPool) option" where
  "dequeue_node p =
     (case try_dequeue (queue p) of
        Some (node, q') \<Rightarrow> Some (Some node, p\<lparr>queue := q'\<rparr>)
      | None \<Rightarrow> TryDequeueWithoutConcurrentPurge p)"

lemma dequeue_node_shorter:
  "dequeue_node p = Some (Some node, p1) \<Longrightarrow> length (queue p1) < length (queue p)"
  by (auto simp: dequeue_node_def TryDequeueWithoutConcurrentPurge_def try_dequeue_def Let_def
      split: list.splits if_splits)

lemma queue_Unload [simp]: "queue (Unload a h p) = queue p"
  by (simp add: Unload_def UnloadAndTakeBlock_def DecreaseUsedMemory_def)

text \<open>
  The loop of \<open>BufferPool::EvictBlocks\<close>, lines 96 to 136, entered after the
  reservation has been made. \<open>buffer\<close> says whether the caller passed a
  \<open>unique_ptr<FileBuffer> *\<close>; the second component of the result is the handle
  whose block was moved into it. \<open>None\<close> is a call that never returns.
\<close>

function EvictLoop :: "MemoryTag \<Rightarrow> idx_t \<Rightarrow> idx_t \<Rightarrow> bool \<Rightarrow> BufferPool \<Rightarrow> (EvictionResult \<times> handle_ref option \<times> BufferPool) option" where
  "EvictLoop t extra_memory memory_limit buffer p =
     (if current_memory p > memory_limit then
        (case dequeue_node p of
           None \<Rightarrow> None
         | Some (None, p1) \<Rightarrow>
             Some (\<lparr>success = False, reservation = 0\<rparr>, None, Resize0 t extra_memory p1)
         | Some (Some node, p1) \<Rightarrow>
             let p2 = p1\<lparr>evict_queue_insertions := evict_queue_insertions p1 - 1\<rparr> in
             (case TryGetBlockHandle (handles p2) node of
                None \<Rightarrow>
                  EvictLoop t extra_memory memory_limit buffer
                    (p2\<lparr>total_dead_nodes := total_dead_nodes p2 - 1\<rparr>)
              | Some (a, h) \<Rightarrow>
                  if \<not> CanUnload node h then
                    EvictLoop t extra_memory memory_limit buffer
                      (p2\<lparr>total_dead_nodes := total_dead_nodes p2 - 1\<rparr>)
                  else if buffer \<and> alloc_size h = extra_memory then
                    Some (\<lparr>success = True, reservation = extra_memory\<rparr>, Some a,
                          UnloadAndTakeBlock a h p2)
                  else EvictLoop t extra_memory memory_limit buffer (Unload a h p2)))
      else Some (\<lparr>success = True, reservation = extra_memory\<rparr>, None, p))"
  by pat_completeness auto
termination
  by (relation "measure (\<lambda>(t, e, l, b, p). length (queue p))")
     (auto dest: dequeue_node_shorter)

text \<open>\<open>BufferPool::EvictBlocks\<close>, lines 91 to 137.\<close>

definition EvictBlocks :: "MemoryTag \<Rightarrow> idx_t \<Rightarrow> idx_t \<Rightarrow> bool \<Rightarrow> BufferPool \<Rightarrow> (EvictionResult \<times> handle_ref option \<times> BufferPool) option" where
  "EvictBlocks t extra_memory memory_limit buffer p =
     EvictLoop t extra_memory memory_limit buffer (TempBufferPoolReservation t extra_memory p)"

subsection \<open>Changing the limit\<close>

text \<open>
  \<open>BufferPool::SetLimit\<close>, lines 258 to 277. The \<open>EvictionResult\<close> of each call is
  a temporary: its reservation is given back at the end of the condition. The
  result is the exception thrown, if any, and the pool; the exception carries the
  two arguments that are formatted into its message.

  The second pass, lines 269 to 276, is a function of the limit saved at line 266
  and of the pool it finds: while \<open>SetLimit\<close> holds only \<open>limit_lock\<close>, other threads
  may reserve memory between the two passes (section 4.7 of the specification),
  so its properties are stated for any pool.
\<close>

definition SetLimit_second_pass :: "constants \<Rightarrow> idx_t \<Rightarrow> string \<Rightarrow> idx_t \<Rightarrow> BufferPool \<Rightarrow> (error option \<times> BufferPool) option" where
  "SetLimit_second_pass c limit exception_postscript old_limit p2 =
     (case EvictBlocks (EXTENSION c) 0 limit False p2 of
        None \<Rightarrow> None
      | Some (r2, _, p3) \<Rightarrow>
          let p3' = Resize0 (EXTENSION c) (reservation r2) p3 in
          if \<not> success r2 then
            Some (Some (OutOfMemoryException limit exception_postscript),
                  p3'\<lparr>maximum_memory := old_limit\<rparr>)
          else Some (None, p3'))"

definition SetLimit :: "constants \<Rightarrow> idx_t \<Rightarrow> string \<Rightarrow> BufferPool \<Rightarrow> (error option \<times> BufferPool) option" where
  "SetLimit c limit exception_postscript p =
     (case EvictBlocks (EXTENSION c) 0 limit False p of
        None \<Rightarrow> None
      | Some (r1, _, p1) \<Rightarrow>
          let p1' = Resize0 (EXTENSION c) (reservation r1) p1 in
          if \<not> success r1 then
            Some (Some (OutOfMemoryException limit exception_postscript), p1')
          else
            let old_limit = maximum_memory p1';
                p2 = p1'\<lparr>maximum_memory := limit\<rparr>
            in SetLimit_second_pass c limit exception_postscript old_limit p2)"

subsection \<open>Purging\<close>

text \<open>
  \<open>purge_nodes.resize(purge_size)\<close>: the vector is cut, or filled up with
  default-constructed nodes (an empty weak pointer; the timestamp of such a node
  is never read).
\<close>

definition resize :: "nat \<Rightarrow> BufferEvictionNode list \<Rightarrow> BufferEvictionNode list" where
  "resize n ns = take n ns @ replicate (n - length ns) \<lparr>handle = None, timestamp = 0\<rparr>"

text \<open>
  \<open>purge_nodes[alive_nodes] = std::move(node)\<close> for \<open>node = purge_nodes[i]\<close>: the
  node is copied down and its weak pointer left empty, unless both are the same
  element.
\<close>

definition move_node :: "nat \<Rightarrow> nat \<Rightarrow> BufferEvictionNode list \<Rightarrow> BufferEvictionNode list" where
  "move_node alive_nodes i ns =
     (if alive_nodes = i then ns
      else ns[alive_nodes := ns ! i, i := (ns ! i)\<lparr>handle := None\<rparr>])"

text \<open>
  The \<open>for\<close> loop of \<open>PurgeIteration\<close>, lines 171 to 177: the vector and
  \<open>alive_nodes\<close> after the indices from \<open>i\<close> below \<open>actually_dequeued\<close>.
\<close>

function retrieve_alive :: "(handle_ref \<Rightarrow> BlockHandle option) \<Rightarrow> nat \<Rightarrow> nat \<Rightarrow> nat \<Rightarrow> BufferEvictionNode list \<Rightarrow> BufferEvictionNode list \<times> nat" where
  "retrieve_alive hs actually_dequeued i alive_nodes ns =
     (if i < actually_dequeued then
        (case TryGetBlockHandle hs (ns ! i) of
           Some _ \<Rightarrow> retrieve_alive hs actually_dequeued (i + 1) (alive_nodes + 1) (move_node alive_nodes i ns)
         | None \<Rightarrow> retrieve_alive hs actually_dequeued (i + 1) alive_nodes ns)
      else (ns, alive_nodes))"
  by pat_completeness auto
termination
  by (relation "measure (\<lambda>(hs, n, i, a, ns). n - i)") auto

text \<open>
  \<open>BufferPool::PurgeIteration\<close>, lines 157 to 182. \<open>try_dequeue_bulk\<close> writes the
  nodes it removes over the first cells of \<open>purge_nodes\<close>.
\<close>

definition PurgeIteration :: "idx_t \<Rightarrow> BufferPool \<Rightarrow> BufferPool" where
  "PurgeIteration purge_size p =
     (let previous_purge_size = length (purge_nodes p);
          ns0 = (if unat purge_size < previous_purge_size div 2 \<or> unat purge_size > previous_purge_size
                 then resize (unat purge_size) (purge_nodes p) else purge_nodes p);
          (dequeued, q') = try_dequeue_bulk (unat purge_size) (queue p);
          actually_dequeued = length dequeued;
          ns1 = dequeued @ drop actually_dequeued ns0;
          (ns2, alive_nodes) = retrieve_alive (handles p) actually_dequeued 0 0 ns1
      in p\<lparr>queue := enqueue_bulk (take alive_nodes ns2) q',
           purge_nodes := ns2,
           total_dead_nodes := total_dead_nodes p - of_nat (actually_dequeued - alive_nodes)\<rparr>)"

text \<open>
  The \<open>while\<close> loop of \<open>PurgeQueue\<close>, lines 229 to 255, with the store to
  \<open>purge_active\<close> that ends each of its exits. The second component counts the
  calls of \<open>PurgeIteration\<close>; it is not part of the program.
\<close>

function PurgeLoop :: "constants \<Rightarrow> idx_t \<Rightarrow> idx_t \<Rightarrow> BufferPool \<Rightarrow> BufferPool \<times> nat" where
  "PurgeLoop c purge_size max_purges p =
     (if max_purges \<noteq> 0 then
        let p1 = PurgeIteration purge_size p;
            approx_q_size = size_approx (queue p1)
        in if approx_q_size < purge_size * EARLY_OUT_MULTIPLIER c then (p1\<lparr>purge_active := False\<rparr>, 1)
           else
             let approx_dead_nodes0 = total_dead_nodes p1;
                 approx_dead_nodes = (if approx_dead_nodes0 > approx_q_size then approx_q_size
                                      else approx_dead_nodes0);
                 approx_alive_nodes = approx_q_size - approx_dead_nodes
             in if approx_alive_nodes * (ALIVE_NODE_MULTIPLIER c - 1) > approx_dead_nodes
                then (p1\<lparr>purge_active := False\<rparr>, 1)
                else (case PurgeLoop c purge_size (max_purges - 1) p1 of
                        (p2, iterations) \<Rightarrow> (p2, iterations + 1))
      else (p\<lparr>purge_active := False\<rparr>, 0))"
  by pat_completeness auto
termination
  by (relation "measure (\<lambda>(c, s, m, p). unat m)") (auto simp: unat_minus_one unat_gt_0)

text \<open>
  \<open>BufferPool::PurgeQueue\<close>, lines 184 to 256, with the number of purge
  iterations it ran. The integer division of line 228 traps when \<open>purge_size\<close> is
  zero; the flag is still set then.
\<close>

definition PurgeQueue_counted :: "constants \<Rightarrow> BufferPool \<Rightarrow> (error + BufferPool) \<times> nat" where
  "PurgeQueue_counted c p =
     (if purge_active p then (Inr p, 0)
      else
        let p1 = p\<lparr>purge_active := True\<rparr>;
            queue_insertions = evict_queue_insertions p1;
            p2 = p1\<lparr>evict_queue_insertions := queue_insertions - INSERT_INTERVAL c\<rparr>;
            purge_size = queue_insertions * PURGE_SIZE_MULTIPLIER c;
            approx_q_size = size_approx (queue p2)
        in if approx_q_size < purge_size * EARLY_OUT_MULTIPLIER c
           then (Inr (p2\<lparr>purge_active := False\<rparr>), 0)
           else if purge_size = 0 then (Inl DivisionByZero, 0)
           else (case PurgeLoop c purge_size (approx_q_size div purge_size) p2 of
                   (p3, iterations) \<Rightarrow> (Inr p3, iterations)))"

definition PurgeQueue :: "constants \<Rightarrow> BufferPool \<Rightarrow> error + BufferPool" where
  "PurgeQueue c p = fst (PurgeQueue_counted c p)"

section \<open>Predicates and concrete pools\<close>

subsection \<open>Predicates on hints, pools and runs\<close>

text \<open>A hint is alive when \<open>TryGetBlockHandle\<close> returns a handle for it.\<close>

definition alive :: "(handle_ref \<Rightarrow> BlockHandle option) \<Rightarrow> BufferEvictionNode \<Rightarrow> bool" where
  "alive hs n = (TryGetBlockHandle hs n \<noteq> None)"

text \<open>The pool after line 109, and after lines 114 and 122.\<close>

definition dequeued :: "BufferPool \<Rightarrow> BufferPool" where
  "dequeued p = p\<lparr>evict_queue_insertions := evict_queue_insertions p - 1\<rparr>"

definition skipped :: "BufferPool \<Rightarrow> BufferPool" where
  "skipped p = (dequeued p)\<lparr>total_dead_nodes := total_dead_nodes p - 1\<rparr>"

text \<open>The two early-outs of the loop, lines 237 and 247, as one test on the pool.\<close>

definition early_out :: "constants \<Rightarrow> idx_t \<Rightarrow> BufferPool \<Rightarrow> bool" where
  "early_out c purge_size p1 =
     (let approx_q_size = size_approx (queue p1) in
      approx_q_size < purge_size * EARLY_OUT_MULTIPLIER c
      \<or> (let approx_dead_nodes0 = total_dead_nodes p1;
              approx_dead_nodes = (if approx_dead_nodes0 > approx_q_size then approx_q_size
                                   else approx_dead_nodes0);
              approx_alive_nodes = approx_q_size - approx_dead_nodes
          in approx_alive_nodes * (ALIVE_NODE_MULTIPLIER c - 1) > approx_dead_nodes))"

text \<open>The bytes of the block at an address, when it is loaded.\<close>

definition bytes_at :: "(handle_ref \<Rightarrow> BlockHandle option) \<Rightarrow> handle_ref \<Rightarrow> nat" where
  "bytes_at hs a =
     (case hs a of
        None \<Rightarrow> 0
      | Some h \<Rightarrow> if state h = BLOCK_LOADED then unat (alloc_size h) else 0)"

definition loaded_bytes :: "(handle_ref \<Rightarrow> BlockHandle option) \<Rightarrow> nat" where
  "loaded_bytes hs = sum (bytes_at hs) (dom hs)"

text \<open>
  The bytes of the loaded blocks are part of \<open>current_memory\<close> (the rest of it is
  reserved or held by buffers that no handle owns).
\<close>

definition accounted :: "BufferPool \<Rightarrow> bool" where
  "accounted p = (finite (dom (handles p)) \<and> loaded_bytes (handles p) \<le> unat (current_memory p))"

text \<open>The timestamps of the hints for the handle at \<open>a\<close>, in queue order.\<close>

definition hints_of :: "handle_ref \<Rightarrow> BufferEvictionNode list \<Rightarrow> idx_t list" where
  "hints_of a q = map timestamp (filter (\<lambda>n. handle n = Some a) q)"

text \<open>
  I4 of the specification: of the hints for a live handle at most one carries the
  handle's current timestamp.
\<close>

definition hint_liveness :: "BufferPool \<Rightarrow> bool" where
  "hint_liveness p =
     (\<forall>a h. handles p a = Some h \<longrightarrow>
        length (filter (\<lambda>n. handle n = Some a \<and> timestamp n = eviction_timestamp h) (queue p)) \<le> 1)"

text \<open>
  What makes I4 inductive: the hints for a live handle carry different
  timestamps, none of them above the handle's current one.
\<close>

definition hints_ordered :: "BufferPool \<Rightarrow> bool" where
  "hints_ordered p =
     (\<forall>a h. handles p a = Some h \<longrightarrow>
        distinct (hints_of a (queue p))
        \<and> (\<forall>ts \<in> set (hints_of a (queue p)). ts \<le> eviction_timestamp h))"

text \<open>Every handle of the second store is a handle of the first, with its timestamp.\<close>

definition stamps_kept :: "(handle_ref \<Rightarrow> BlockHandle option) \<Rightarrow> (handle_ref \<Rightarrow> BlockHandle option) \<Rightarrow> bool" where
  "stamps_kept hs hs' =
     (\<forall>a h'. hs' a = Some h' \<longrightarrow> (\<exists>h. hs a = Some h \<and> eviction_timestamp h' = eviction_timestamp h))"

text \<open>
  A step of the code around the pool on the handles: it may pin, unpin, reload and
  destroy handles, and create a handle at an address that no hint in the queue
  points to; it does not write \<open>eviction_timestamp\<close>, which only
  \<open>AddToEvictionQueue\<close> does.
\<close>

definition same_stamps :: "BufferEvictionNode list \<Rightarrow> (handle_ref \<Rightarrow> BlockHandle option) \<Rightarrow> (handle_ref \<Rightarrow> BlockHandle option) \<Rightarrow> bool" where
  "same_stamps q hs hs' =
     (\<forall>a h'. hs' a = Some h' \<longrightarrow>
        (case hs a of
           Some h \<Rightarrow> eviction_timestamp h' = eviction_timestamp h
         | None \<Rightarrow> \<forall>n \<in> set q. handle n \<noteq> Some a))"

text \<open>
  The pools that calls of the pool's operations and steps of the code around it
  lead to. A handle is unpinned fewer than \<open>2^64\<close> times: \<open>AddToEvictionQueue\<close> is
  not called on a handle whose timestamp would wrap around.
\<close>

inductive reachable :: "constants \<Rightarrow> BufferPool \<Rightarrow> bool" for c :: constants where
  created: "reachable c (BufferPool_new c raw hs m)"
| added: "reachable c p \<Longrightarrow> handles p a = Some h \<Longrightarrow> eviction_timestamp h \<noteq> - 1 \<Longrightarrow>
          AddToEvictionQueue c a p = Inr (b, p') \<Longrightarrow> reachable c p'"
| evicted: "reachable c p \<Longrightarrow> EvictBlocks t e l buffer p = Some (r, out, p') \<Longrightarrow> reachable c p'"
| swept: "reachable c p \<Longrightarrow> reachable c (PurgeIteration purge_size p)"
| purged: "reachable c p \<Longrightarrow> PurgeQueue c p = Inr p' \<Longrightarrow> reachable c p'"
| limited: "reachable c p \<Longrightarrow> SetLimit c limit s p = Some (e, p') \<Longrightarrow> reachable c p'"
| charged: "reachable c p \<Longrightarrow> reachable c (IncreaseUsedMemory t sz p)"
| stepped: "reachable c p \<Longrightarrow> same_stamps (queue p) (handles p) hs' \<Longrightarrow>
            reachable c (p\<lparr>handles := hs'\<rparr>)"

subsection \<open>Concrete pools\<close>

text \<open>A loaded, unpinned block of 40 bytes that has never been in the queue.\<close>

definition h0 :: BlockHandle where
  "h0 = \<lparr>alloc_size = 40, readers = 0, eviction_timestamp = 0, state = BLOCK_LOADED, tag = 0\<rparr>"

text \<open>
  The pool with limit 100 after block 0 (40 bytes, tag 0) has been loaded and
  unpinned once.
\<close>

definition pool_one :: BufferPool where
  "pool_one =
     \<lparr>current_memory = 40, maximum_memory = 100,
      queue = [\<lparr>handle = Some 0, timestamp = 1\<rparr>],
      evict_queue_insertions = 1, total_dead_nodes = 0, purge_active = False,
      purge_nodes = [], memory_usage_per_tag = [40, 0],
      handles = [0 \<mapsto> h0\<lparr>eviction_timestamp := 1\<rparr>]\<rparr>"

text \<open>Two pinned blocks of 40 bytes each, and nothing in the queue.\<close>

definition pool_pinned :: BufferPool where
  "pool_pinned =
     \<lparr>current_memory = 80, maximum_memory = 100, queue = [],
      evict_queue_insertions = 0, total_dead_nodes = 0, purge_active = False,
      purge_nodes = [], memory_usage_per_tag = [80, 0],
      handles = [0 \<mapsto> h0\<lparr>readers := 1\<rparr>, 1 \<mapsto> h0\<lparr>readers := 1\<rparr>]\<rparr>"

text \<open>
  \<open>pool_one\<close> in the middle of \<open>SetLimit(0, "")\<close>: the first pass has unloaded
  block 0, the limit has been set to 0, and before the second pass another thread
  has reserved 40 bytes.
\<close>

definition pool_raced :: BufferPool where
  "pool_raced =
     \<lparr>current_memory = 40, maximum_memory = 0, queue = [],
      evict_queue_insertions = 0, total_dead_nodes = 0, purge_active = False,
      purge_nodes = [], memory_usage_per_tag = [40, 0],
      handles = [0 \<mapsto> h0\<lparr>eviction_timestamp := 1, state := BLOCK_UNLOADED\<rparr>]\<rparr>"

text \<open>Two loaded, unpinned blocks of 40 bytes, both with a live hint in the queue.\<close>

definition pool_two :: BufferPool where
  "pool_two =
     \<lparr>current_memory = 80, maximum_memory = 100,
      queue = [\<lparr>handle = Some 0, timestamp = 1\<rparr>, \<lparr>handle = Some 1, timestamp = 1\<rparr>],
      evict_queue_insertions = 2, total_dead_nodes = 0, purge_active = False,
      purge_nodes = [], memory_usage_per_tag = [80, 0],
      handles = [0 \<mapsto> h0\<lparr>eviction_timestamp := 1\<rparr>, 1 \<mapsto> h0\<lparr>eviction_timestamp := 1\<rparr>]\<rparr>"

text \<open>
  Block 0 unpinned twice: its first hint is stale, its second is live, the handle
  is alive throughout.
\<close>

definition pool_stale :: BufferPool where
  "pool_stale =
     \<lparr>current_memory = 40, maximum_memory = 100,
      queue = [\<lparr>handle = Some 0, timestamp = 1\<rparr>, \<lparr>handle = Some 0, timestamp = 2\<rparr>],
      evict_queue_insertions = 2, total_dead_nodes = 1, purge_active = False,
      purge_nodes = [], memory_usage_per_tag = [40, 0],
      handles = [0 \<mapsto> h0\<lparr>eviction_timestamp := 2\<rparr>]\<rparr>"


text \<open>
  Block 0 after twelve unpins: twelve hints, the last one live; one insertion is
  left on the counter.
\<close>

definition pool_twelve :: BufferPool where
  "pool_twelve =
     \<lparr>current_memory = 40, maximum_memory = 100,
      queue = map (\<lambda>ts. \<lparr>handle = Some 0, timestamp = ts\<rparr>) [1, 2, 3, 4, 5, 6, 7, 8, 9, 10, 11, 12],
      evict_queue_insertions = 1, total_dead_nodes = 11, purge_active = False,
      purge_nodes = [], memory_usage_per_tag = [40, 0],
      handles = [0 \<mapsto> h0\<lparr>eviction_timestamp := 12\<rparr>]\<rparr>"

text \<open>
  The pool with limit 100 after block 0 (40 bytes) and block 1 (40 bytes, pinned)
  have been loaded, block 0 has been unpinned once, which put its first hint into
  the queue, and the handle of block 0 has been destroyed, which gave its 40 bytes
  back.
\<close>

definition pool_orphan :: BufferPool where
  "pool_orphan =
     \<lparr>current_memory = 40, maximum_memory = 100,
      queue = [\<lparr>handle = Some 0, timestamp = 1\<rparr>],
      evict_queue_insertions = 1, total_dead_nodes = 0, purge_active = False,
      purge_nodes = [], memory_usage_per_tag = [40, 0],
      handles = [1 \<mapsto> h0\<lparr>readers := 1\<rparr>]\<rparr>"

section \<open>Construction\<close>

lemma fold_zero_slots:
  "n \<le> length raw \<Longrightarrow> fold (\<lambda>i a. a[i := 0::idx_t]) [0..<n] raw = replicate n 0 @ drop n raw"
proof (induction n)
  case 0
  then show ?case by simp
next
  case (Suc n)
  then have "fold (\<lambda>i a. a[i := 0::idx_t]) [0..<Suc n] raw = (replicate n 0 @ drop n raw)[n := 0]"
    by simp
  also have "\<dots> = replicate n 0 @ (drop n raw)[0 := 0]"
    by (simp add: list_update_append)
  also have "(drop n raw)[0 := 0] = 0 # drop (Suc n) raw"
    using Suc.prems by (cases "drop n raw") (auto simp: drop_Suc drop_tl)
  finally show ?case by (simp add: replicate_append_same)
qed

text \<open>
  C10. Right after construction with \<open>maximum_memory = m\<close>, whatever the per-tag
  array held before the constructor's loop: the used memory is 0, the maximum
  memory and the query maximum memory are \<open>m\<close>, each of the \<open>MEMORY_TAG_COUNT\<close>
  per-tag slots is 0, both counters are 0, no purge is active and the queue is
  empty.
\<close>

theorem BufferPool_new_state:
  assumes "length raw = MEMORY_TAG_COUNT c"
  shows "GetUsedMemory (BufferPool_new c raw hs m) = 0
       \<and> GetMaxMemory (BufferPool_new c raw hs m) = m
       \<and> GetQueryMaxMemory (BufferPool_new c raw hs m) = m
       \<and> memory_usage_per_tag (BufferPool_new c raw hs m) = replicate (MEMORY_TAG_COUNT c) 0
       \<and> evict_queue_insertions (BufferPool_new c raw hs m) = 0
       \<and> total_dead_nodes (BufferPool_new c raw hs m) = 0
       \<and> purge_active (BufferPool_new c raw hs m) = False
       \<and> queue (BufferPool_new c raw hs m) = []"
  using assms fold_zero_slots [of "MEMORY_TAG_COUNT c" raw]
  by (simp add: BufferPool_new_def GetUsedMemory_def GetMaxMemory_def GetQueryMaxMemory_def)

theorem BufferPool_new_state_witness:
  "length [7, 9 :: idx_t] = MEMORY_TAG_COUNT spec_defaults
   \<and> GetUsedMemory (BufferPool_new spec_defaults [7, 9] Map.empty 100) = 0
   \<and> GetMaxMemory (BufferPool_new spec_defaults [7, 9] Map.empty 100) = 100
   \<and> GetQueryMaxMemory (BufferPool_new spec_defaults [7, 9] Map.empty 100) = 100
   \<and> memory_usage_per_tag (BufferPool_new spec_defaults [7, 9] Map.empty 100) = [0, 0]
   \<and> queue (BufferPool_new spec_defaults [7, 9] Map.empty 100) = []"
proof -
  have len: "length [7, 9 :: idx_t] = MEMORY_TAG_COUNT spec_defaults"
    by (simp add: spec_defaults_def)
  show ?thesis
    using len BufferPool_new_state [OF len, of Map.empty 100]
    by (simp add: spec_defaults_def numeral_2_eq_2)
qed

lemma new_two_tags:
  "BufferPool_new spec_defaults [x, y] hs m =
     \<lparr>current_memory = 0, maximum_memory = m, queue = [],
      evict_queue_insertions = 0, total_dead_nodes = 0, purge_active = False,
      purge_nodes = [], memory_usage_per_tag = [0, 0], handles = hs\<rparr>"
  using fold_zero_slots [of 2 "[x, y]"]
  by (simp add: BufferPool_new_def spec_defaults_def numeral_2_eq_2)

section \<open>Adding a hint\<close>

text \<open>
  C4. For a live handle \<open>h\<close> at address \<open>a\<close> with no readers,
  \<open>AddToEvictionQueue\<close> returns normally; afterwards the handle's
  \<open>eviction_timestamp\<close> is the old one plus one (\<open>ts\<close>), the queue is the old queue
  followed by the one hint \<open>(a, ts)\<close>, \<open>total_dead_nodes\<close> is one more exactly when
  \<open>ts \<noteq> 1\<close>, \<open>evict_queue_insertions\<close> is one more, and the flag returned is true
  exactly when the incremented insertion counter is at least \<open>INSERT_INTERVAL\<close>.
\<close>

theorem AddToEvictionQueue_effect:
  assumes "handles p a = Some h" and "readers h = 0"
  shows "\<exists>p'. AddToEvictionQueue c a p
               = Inr (evict_queue_insertions p + 1 \<ge> INSERT_INTERVAL c, p')
       \<and> handles p' = (handles p)(a \<mapsto> h\<lparr>eviction_timestamp := eviction_timestamp h + 1\<rparr>)
       \<and> queue p' = queue p @ [\<lparr>handle = Some a, timestamp = eviction_timestamp h + 1\<rparr>]
       \<and> total_dead_nodes p' =
           (if eviction_timestamp h + 1 \<noteq> 1 then total_dead_nodes p + 1 else total_dead_nodes p)
       \<and> evict_queue_insertions p' = evict_queue_insertions p + 1
       \<and> current_memory p' = current_memory p \<and> maximum_memory p' = maximum_memory p"
  using assms by (simp add: AddToEvictionQueue_def Let_def enqueue_def)

theorem AddToEvictionQueue_effect_witness:
  "handles (BufferPool_new spec_defaults [0, 0] [0 \<mapsto> h0] 100) 0 = Some h0
   \<and> readers h0 = 0
   \<and> (\<exists>p'. AddToEvictionQueue spec_defaults 0 (BufferPool_new spec_defaults [0, 0] [0 \<mapsto> h0] 100)
              = Inr (False, p')
          \<and> queue p' = [\<lparr>handle = Some 0, timestamp = 1\<rparr>]
          \<and> total_dead_nodes p' = 0
          \<and> evict_queue_insertions p' = 1)"
proof -
  let ?p = "BufferPool_new spec_defaults [0, 0] [0 \<mapsto> h0] 100"
  have a: "handles ?p 0 = Some h0" by (simp add: BufferPool_new_def)
  have r: "readers h0 = 0" by (simp add: h0_def)
  show ?thesis
    using a r AddToEvictionQueue_effect [OF a r, of spec_defaults]
    by (auto simp: BufferPool_new_def spec_defaults_def h0_def word_le_nat_alt)
qed

text \<open>
  The concrete pools are what the operations make of a new pool.
\<close>

lemma pool_one_run:
  "AddToEvictionQueue spec_defaults 0
     (IncreaseUsedMemory 0 40 (BufferPool_new spec_defaults [0, 0] [0 \<mapsto> h0] 100))
   = Inr (False, pool_one)"
  unfolding new_two_tags
  by (simp add: AddToEvictionQueue_def IncreaseUsedMemory_def pool_one_def
      spec_defaults_def h0_def Let_def enqueue_def word_le_nat_alt)

lemma pool_stale_run:
  "AddToEvictionQueue spec_defaults 0 pool_one = Inr (False, pool_stale)"
  by (simp add: AddToEvictionQueue_def pool_one_def pool_stale_def
      spec_defaults_def h0_def Let_def enqueue_def word_le_nat_alt)

lemma pool_two_run:
  "(case AddToEvictionQueue spec_defaults 0
           (IncreaseUsedMemory 0 40 (IncreaseUsedMemory 0 40
              (BufferPool_new spec_defaults [0, 0] [0 \<mapsto> h0, 1 \<mapsto> h0] 100))) of
      Inl e \<Rightarrow> False
    | Inr (b, p) \<Rightarrow> \<not> b \<and> AddToEvictionQueue spec_defaults 1 p = Inr (False, pool_two))"
  unfolding new_two_tags
  by (auto simp: AddToEvictionQueue_def IncreaseUsedMemory_def pool_two_def
      spec_defaults_def h0_def Let_def enqueue_def word_le_nat_alt fun_upd_twist)

lemma pool_orphan_run:
  "(case AddToEvictionQueue spec_defaults 0
           (IncreaseUsedMemory 0 40 (IncreaseUsedMemory 0 40
              (BufferPool_new spec_defaults [0, 0] [0 \<mapsto> h0, 1 \<mapsto> h0\<lparr>readers := 1\<rparr>] 100))) of
      Inl e \<Rightarrow> False
    | Inr (b, p) \<Rightarrow>
        \<not> b \<and> (DecreaseUsedMemory 0 40 p)\<lparr>handles := (handles p)(0 := None)\<rparr> = pool_orphan)"
  unfolding new_two_tags
  by (auto simp: AddToEvictionQueue_def IncreaseUsedMemory_def DecreaseUsedMemory_def pool_orphan_def
      spec_defaults_def h0_def Let_def enqueue_def word_le_nat_alt fun_upd_twist)

section \<open>Eviction\<close>

text \<open>
  The recursive equations of the three loops are unfolded by hand, one iteration
  at a time.
\<close>

declare EvictLoop.simps [simp del]

declare PurgeLoop.simps [simp del]

declare retrieve_alive.simps [simp del]

subsection \<open>What the operations leave alone\<close>

lemma dequeue_node_fields:
  "dequeue_node p = Some (on, p1) \<Longrightarrow>
     current_memory p1 = current_memory p \<and> maximum_memory p1 = maximum_memory p
   \<and> handles p1 = handles p \<and> purge_active p1 = purge_active p
   \<and> total_dead_nodes p1 = total_dead_nodes p
   \<and> evict_queue_insertions p1 = evict_queue_insertions p
   \<and> memory_usage_per_tag p1 = memory_usage_per_tag p
   \<and> purge_nodes p1 = purge_nodes p"
  by (auto simp: dequeue_node_def TryDequeueWithoutConcurrentPurge_def try_dequeue_def Let_def
      split: list.splits if_splits)

lemma dequeue_node_queue:
  "dequeue_node p = Some (on, p1) \<Longrightarrow>
     (case on of None \<Rightarrow> queue p = [] \<and> queue p1 = []
      | Some n \<Rightarrow> queue p = n # queue p1)"
  by (auto simp: dequeue_node_def TryDequeueWithoutConcurrentPurge_def try_dequeue_def Let_def
      split: list.splits if_splits)

lemma dequeue_node_total:
  "\<not> purge_active p \<Longrightarrow> \<exists>r. dequeue_node p = Some r"
  by (auto simp: dequeue_node_def TryDequeueWithoutConcurrentPurge_def try_dequeue_def Let_def
      split: list.splits if_splits)

lemma Unload_fields [simp]:
  "maximum_memory (Unload a h p) = maximum_memory p"
  "purge_active (Unload a h p) = purge_active p"
  "total_dead_nodes (Unload a h p) = total_dead_nodes p"
  "evict_queue_insertions (Unload a h p) = evict_queue_insertions p"
  "purge_nodes (Unload a h p) = purge_nodes p"
  "current_memory (Unload a h p) = current_memory p - alloc_size h"
  "handles (Unload a h p) = (handles p)(a \<mapsto> h\<lparr>state := BLOCK_UNLOADED\<rparr>)"
  by (simp_all add: Unload_def UnloadAndTakeBlock_def DecreaseUsedMemory_def)

lemma UnloadAndTakeBlock_fields [simp]:
  "maximum_memory (UnloadAndTakeBlock a h p) = maximum_memory p"
  "purge_active (UnloadAndTakeBlock a h p) = purge_active p"
  "total_dead_nodes (UnloadAndTakeBlock a h p) = total_dead_nodes p"
  "evict_queue_insertions (UnloadAndTakeBlock a h p) = evict_queue_insertions p"
  "purge_nodes (UnloadAndTakeBlock a h p) = purge_nodes p"
  "queue (UnloadAndTakeBlock a h p) = queue p"
  "current_memory (UnloadAndTakeBlock a h p) = current_memory p - alloc_size h"
  "handles (UnloadAndTakeBlock a h p) = (handles p)(a \<mapsto> h\<lparr>state := BLOCK_UNLOADED\<rparr>)"
  by (simp_all add: UnloadAndTakeBlock_def DecreaseUsedMemory_def)

lemma Resize0_fields [simp]:
  "maximum_memory (Resize0 t s p) = maximum_memory p"
  "purge_active (Resize0 t s p) = purge_active p"
  "total_dead_nodes (Resize0 t s p) = total_dead_nodes p"
  "evict_queue_insertions (Resize0 t s p) = evict_queue_insertions p"
  "purge_nodes (Resize0 t s p) = purge_nodes p"
  "queue (Resize0 t s p) = queue p"
  "current_memory (Resize0 t s p) = current_memory p - s"
  "handles (Resize0 t s p) = handles p"
  by (simp_all add: Resize0_def DecreaseUsedMemory_def)

lemma Reservation_fields [simp]:
  "maximum_memory (TempBufferPoolReservation t s p) = maximum_memory p"
  "purge_active (TempBufferPoolReservation t s p) = purge_active p"
  "total_dead_nodes (TempBufferPoolReservation t s p) = total_dead_nodes p"
  "evict_queue_insertions (TempBufferPoolReservation t s p) = evict_queue_insertions p"
  "purge_nodes (TempBufferPoolReservation t s p) = purge_nodes p"
  "queue (TempBufferPoolReservation t s p) = queue p"
  "current_memory (TempBufferPoolReservation t s p) = current_memory p + s"
  "handles (TempBufferPoolReservation t s p) = handles p"
  by (simp_all add: TempBufferPoolReservation_def IncreaseUsedMemory_def)

lemma dequeued_fields [simp]:
  "maximum_memory (dequeued p) = maximum_memory p"
  "purge_active (dequeued p) = purge_active p"
  "total_dead_nodes (dequeued p) = total_dead_nodes p"
  "evict_queue_insertions (dequeued p) = evict_queue_insertions p - 1"
  "purge_nodes (dequeued p) = purge_nodes p"
  "queue (dequeued p) = queue p"
  "current_memory (dequeued p) = current_memory p"
  "handles (dequeued p) = handles p"
  "memory_usage_per_tag (dequeued p) = memory_usage_per_tag p"
  by (simp_all add: dequeued_def)

lemma skipped_fields [simp]:
  "maximum_memory (skipped p) = maximum_memory p"
  "purge_active (skipped p) = purge_active p"
  "total_dead_nodes (skipped p) = total_dead_nodes p - 1"
  "evict_queue_insertions (skipped p) = evict_queue_insertions p - 1"
  "purge_nodes (skipped p) = purge_nodes p"
  "queue (skipped p) = queue p"
  "current_memory (skipped p) = current_memory p"
  "handles (skipped p) = handles p"
  "memory_usage_per_tag (skipped p) = memory_usage_per_tag p"
  by (simp_all add: skipped_def dequeued_def)

lemma TryGetBlockHandle_SomeD:
  "TryGetBlockHandle hs n = Some (a, h) \<Longrightarrow> handle n = Some a \<and> hs a = Some h \<and> CanUnload n h"
  by (cases "handle n"; cases "hs (the (handle n))")
     (auto simp: TryGetBlockHandle_def lock_def split: if_splits)

lemma CanUnloadD:
  "CanUnload n h \<Longrightarrow> timestamp n = eviction_timestamp h \<and> state h = BLOCK_LOADED \<and> readers h = 0"
  by (simp add: CanUnload_def BlockHandle_CanUnload_def split: if_splits)

subsection \<open>One iteration of the eviction loop\<close>

lemma EvictLoop_done:
  "\<not> l < current_memory p \<Longrightarrow>
   EvictLoop t e l b p = Some (\<lparr>success = True, reservation = e\<rparr>, None, p)"
  by (simp add: EvictLoop.simps [of t e l b p])

lemma EvictLoop_spin:
  "l < current_memory p \<Longrightarrow> dequeue_node p = None \<Longrightarrow> EvictLoop t e l b p = None"
  by (simp add: EvictLoop.simps [of t e l b p])

lemma EvictLoop_empty:
  "l < current_memory p \<Longrightarrow> dequeue_node p = Some (None, p1) \<Longrightarrow>
   EvictLoop t e l b p = Some (\<lparr>success = False, reservation = 0\<rparr>, None, Resize0 t e p1)"
  by (simp add: EvictLoop.simps [of t e l b p])

lemma EvictLoop_skip:
  "l < current_memory p \<Longrightarrow> dequeue_node p = Some (Some node, p1) \<Longrightarrow>
   TryGetBlockHandle (handles p1) node = None
   \<or> (\<exists>a h. TryGetBlockHandle (handles p1) node = Some (a, h) \<and> \<not> CanUnload node h) \<Longrightarrow>
   EvictLoop t e l b p = EvictLoop t e l b (skipped p1)"
  by (subst EvictLoop.simps) (auto simp: Let_def skipped_def dequeued_def)

lemma EvictLoop_take:
  "l < current_memory p \<Longrightarrow> dequeue_node p = Some (Some node, p1) \<Longrightarrow>
   TryGetBlockHandle (handles p1) node = Some (a, h) \<Longrightarrow> CanUnload node h \<Longrightarrow>
   b \<and> alloc_size h = e \<Longrightarrow>
   EvictLoop t e l b p
     = Some (\<lparr>success = True, reservation = e\<rparr>, Some a, UnloadAndTakeBlock a h (dequeued p1))"
  by (subst EvictLoop.simps) (auto simp: Let_def dequeued_def)

lemma EvictLoop_unload:
  "l < current_memory p \<Longrightarrow> dequeue_node p = Some (Some node, p1) \<Longrightarrow>
   TryGetBlockHandle (handles p1) node = Some (a, h) \<Longrightarrow> CanUnload node h \<Longrightarrow>
   \<not> (b \<and> alloc_size h = e) \<Longrightarrow>
   EvictLoop t e l b p = EvictLoop t e l b (Unload a h (dequeued p1))"
  by (subst EvictLoop.simps) (auto simp: Let_def dequeued_def)

text \<open>
  Induction over the iterations of the loop, one case for each way through its
  body: the condition fails; the second dequeue spins; the queue is empty; the
  hint is skipped; the block is taken over; the block is unloaded.
\<close>

lemma EvictLoop_cases_induct [case_names finished spin empty skip take unload]:
  assumes "\<And>p. \<not> l < current_memory p \<Longrightarrow> P p"
    and "\<And>p. l < current_memory p \<Longrightarrow> dequeue_node p = None \<Longrightarrow> P p"
    and "\<And>p p1. l < current_memory p \<Longrightarrow> dequeue_node p = Some (None, p1) \<Longrightarrow> P p"
    and "\<And>p p1 node. l < current_memory p \<Longrightarrow> dequeue_node p = Some (Some node, p1) \<Longrightarrow>
           TryGetBlockHandle (handles p1) node = None
           \<or> (\<exists>a h. TryGetBlockHandle (handles p1) node = Some (a, h) \<and> \<not> CanUnload node h) \<Longrightarrow>
           P (skipped p1) \<Longrightarrow> P p"
    and "\<And>p p1 node a h. l < current_memory p \<Longrightarrow> dequeue_node p = Some (Some node, p1) \<Longrightarrow>
           TryGetBlockHandle (handles p1) node = Some (a, h) \<Longrightarrow> CanUnload node h \<Longrightarrow>
           b \<and> alloc_size h = e \<Longrightarrow> P p"
    and "\<And>p p1 node a h. l < current_memory p \<Longrightarrow> dequeue_node p = Some (Some node, p1) \<Longrightarrow>
           TryGetBlockHandle (handles p1) node = Some (a, h) \<Longrightarrow> CanUnload node h \<Longrightarrow>
           \<not> (b \<and> alloc_size h = e) \<Longrightarrow> P (Unload a h (dequeued p1)) \<Longrightarrow> P p"
  shows "P p"
proof (induction "length (queue p)" arbitrary: p rule: less_induct)
  case less
  show ?case
  proof (cases "l < current_memory p")
    case False
    then show ?thesis by (rule assms(1))
  next
    case over: True
    show ?thesis
    proof (cases "dequeue_node p")
      case None
      with over show ?thesis by (rule assms(2))
    next
      case (Some res)
      obtain on p1 where res: "res = (on, p1)" by (cases res)
      show ?thesis
      proof (cases on)
        case None
        with over Some res show ?thesis by (auto intro: assms(3))
      next
        case (Some node)
        with \<open>dequeue_node p = Some res\<close> res
        have dq: "dequeue_node p = Some (Some node, p1)" by simp
        have shorter: "length (queue p1) < length (queue p)"
          using dq by (rule dequeue_node_shorter)
        show ?thesis
        proof (cases "TryGetBlockHandle (handles p1) node")
          case None
          have "P (skipped p1)" using shorter by (intro less) simp
          with over dq None show ?thesis by (auto intro: assms(4))
        next
          case (Some ah)
          obtain a h where ah: "ah = (a, h)" by (cases ah)
          note tg = Some [unfolded ah]
          show ?thesis
          proof (cases "CanUnload node h")
            case False
            have "P (skipped p1)" using shorter by (intro less) simp
            with over dq tg False show ?thesis by (auto intro: assms(4))
          next
            case cu: True
            show ?thesis
            proof (cases "b \<and> alloc_size h = e")
              case True
              with over dq tg cu show ?thesis by (rule assms(5))
            next
              case False
              have "P (Unload a h (dequeued p1))" using shorter by (intro less) simp
              with over dq tg cu False show ?thesis by (rule assms(6))
            qed
          qed
        qed
      qed
    qed
  qed
qed

subsection \<open>How the loop ends\<close>

text \<open>
  What every return of the loop has: the limit and the flag are untouched, a
  success holds the reservation, a failure has emptied the queue, and a success
  without a block taken over has brought \<open>current_memory\<close> to the limit.
\<close>

lemma EvictLoop_exit:
  "EvictLoop t e l b p = Some (r, out, p') \<Longrightarrow>
     maximum_memory p' = maximum_memory p \<and> purge_active p' = purge_active p
   \<and> (success r \<longrightarrow> reservation r = e)
   \<and> (\<not> success r \<longrightarrow> reservation r = 0 \<and> out = None \<and> queue p' = [])
   \<and> (success r \<and> out = None \<longrightarrow> current_memory p' \<le> l)
   \<and> (\<not> b \<longrightarrow> out = None)"
proof (induction p rule: EvictLoop_cases_induct [where l = l and b = b and e = e])
  case (finished p)
  then show ?case by (auto simp: EvictLoop_done)
next
  case (spin p)
  then show ?case by (simp add: EvictLoop_spin)
next
  case (empty p p1)
  then show ?case
    using dequeue_node_fields [OF empty(2)] dequeue_node_queue [OF empty(2)]
    by (auto simp: EvictLoop_empty)
next
  case (skip p p1 node)
  then show ?case
    using dequeue_node_fields [OF skip(2)] by (simp add: EvictLoop_skip)
next
  case (take p p1 node a h)
  then show ?case
    using dequeue_node_fields [OF take(2)] by (auto simp: EvictLoop_take)
next
  case (unload p p1 node a h)
  then show ?case
    using dequeue_node_fields [OF unload(2)] by (simp add: EvictLoop_unload)
qed

text \<open>
  The loop returns unless it is entered with \<open>purge_active\<close> set.
\<close>

lemma EvictLoop_total:
  "\<not> purge_active p \<Longrightarrow> \<exists>res. EvictLoop t e l b p = Some res"
proof (induction p rule: EvictLoop_cases_induct [where l = l and b = b and e = e])
  case (finished p)
  then show ?case by (simp add: EvictLoop_done)
next
  case (spin p)
  then show ?case using dequeue_node_total [of p] by simp
next
  case (empty p p1)
  then show ?case by (simp add: EvictLoop_empty)
next
  case (skip p p1 node)
  then show ?case
    using dequeue_node_fields [OF skip(2)] by (simp add: EvictLoop_skip)
next
  case (take p p1 node a h)
  then show ?case by (simp add: EvictLoop_take)
next
  case (unload p p1 node a h)
  then show ?case
    using dequeue_node_fields [OF unload(2)] by (simp add: EvictLoop_unload)
qed

lemma EvictBlocks_total:
  "\<not> purge_active p \<Longrightarrow> \<exists>r out p'. EvictBlocks t e l b p = Some (r, out, p')"
  using EvictLoop_total [of "TempBufferPoolReservation t e p" t e l b]
  by (auto simp: EvictBlocks_def)

lemma EvictBlocks_exit:
  "EvictBlocks t e l b p = Some (r, out, p') \<Longrightarrow>
     maximum_memory p' = maximum_memory p \<and> purge_active p' = purge_active p
   \<and> (success r \<longrightarrow> reservation r = e)
   \<and> (\<not> success r \<longrightarrow> reservation r = 0 \<and> out = None \<and> queue p' = [])
   \<and> (success r \<and> out = None \<longrightarrow> current_memory p' \<le> l)
   \<and> (\<not> b \<longrightarrow> out = None)"
  using EvictLoop_exit [of t e l b "TempBufferPoolReservation t e p" r out p']
  by (simp add: EvictBlocks_def)

text \<open>The definitions a concrete eviction is evaluated with.\<close>

lemmas eval_defs =
  EvictBlocks_def EvictLoop.simps dequeue_node_def try_dequeue_def
  TryDequeueWithoutConcurrentPurge_def TryGetBlockHandle_def lock_def CanUnload_def
  BlockHandle_CanUnload_def TempBufferPoolReservation_def IncreaseUsedMemory_def Resize0_def
  DecreaseUsedMemory_def Unload_def UnloadAndTakeBlock_def Let_def

section \<open>Changing the limit\<close>

lemma pool_raced_run:
  "(case EvictBlocks (EXTENSION spec_defaults) 0 0 False pool_one of
      None \<Rightarrow> False
    | Some (r1, o1, p1) \<Rightarrow>
        success r1 \<and> IncreaseUsedMemory 0 40 (p1\<lparr>maximum_memory := 0\<rparr>) = pool_raced)"
  by (simp add: eval_defs pool_one_def pool_raced_def h0_def spec_defaults_def)

text \<open>
  A failed eviction has left \<open>current_memory\<close> above the limit, the returned
  reservation apart.
\<close>

lemma EvictLoop_failed:
  "EvictLoop t e l b p = Some (r, out, p') \<Longrightarrow> \<not> success r \<Longrightarrow> l < current_memory p' + e"
proof (induction p rule: EvictLoop_cases_induct [where l = l and b = b and e = e])
  case (finished p)
  then show ?case by (auto simp: EvictLoop_done)
next
  case (spin p)
  then show ?case by (simp add: EvictLoop_spin)
next
  case (empty p p1)
  then show ?case
    using dequeue_node_fields [OF empty(2)] by (auto simp: EvictLoop_empty)
next
  case (skip p p1 node)
  then show ?case by (simp add: EvictLoop_skip)
next
  case (take p p1 node a h)
  then show ?case by (auto simp: EvictLoop_take)
next
  case (unload p p1 node a h)
  then show ?case by (simp add: EvictLoop_unload)
qed

lemma EvictBlocks_failed:
  "EvictBlocks t e l b p = Some (r, out, p') \<Longrightarrow> \<not> success r \<Longrightarrow> l < current_memory p' + e"
  using EvictLoop_failed [of t e l b "TempBufferPoolReservation t e p" r out p']
  by (simp add: EvictBlocks_def)

text \<open>The second pass returns, and either way it says what it did to the limit.\<close>

lemma SetLimit_second_pass_outcome:
  assumes "\<not> purge_active q"
  shows "(\<exists>q'. SetLimit_second_pass c x suffix old_limit q = Some (None, q')
             \<and> maximum_memory q' = maximum_memory q \<and> current_memory q' \<le> x)
       \<or> (\<exists>q'. SetLimit_second_pass c x suffix old_limit q
                  = Some (Some (OutOfMemoryException x suffix), q')
             \<and> maximum_memory q' = old_limit \<and> x < current_memory q')"
proof -
  obtain r2 o2 q3 where e2: "EvictBlocks (EXTENSION c) 0 x False q = Some (r2, o2, q3)"
    using EvictBlocks_total [OF assms] by blast
  note x2 = EvictBlocks_exit [OF e2]
  let ?q3 = "Resize0 (EXTENSION c) (reservation r2) q3"
  show ?thesis
  proof (cases "success r2")
    case False
    then have "SetLimit_second_pass c x suffix old_limit q
               = Some (Some (OutOfMemoryException x suffix), ?q3\<lparr>maximum_memory := old_limit\<rparr>)"
      using e2 by (simp add: SetLimit_second_pass_def Let_def)
    moreover have "x < current_memory (?q3\<lparr>maximum_memory := old_limit\<rparr>)"
      using EvictBlocks_failed [OF e2 False] x2 False by simp
    ultimately show ?thesis by simp
  next
    case True
    then have "SetLimit_second_pass c x suffix old_limit q = Some (None, ?q3)"
      using e2 by (simp add: SetLimit_second_pass_def Let_def)
    then show ?thesis using x2 True by simp
  qed
qed

text \<open>
  C2. A call \<open>SetLimit(x, suffix)\<close> made while no purge holds \<open>purge_active\<close>
  (so in every reachable pool, by \<open>reachable_no_purge\<close> below) returns. Either it
  returns normally, and then \<open>maximum_memory\<close> is \<open>x\<close> and \<open>current_memory \<le> x\<close>; or
  it throws \<open>OutOfMemoryException\<close> built from \<open>x\<close> and \<open>suffix\<close>, and then
  \<open>maximum_memory\<close> is what it was before the call and \<open>current_memory\<close> is above
  \<open>x\<close>. When the first eviction fails the exception is thrown with the limit not
  written. When it succeeds the call goes on with the second pass, from the pool
  with the limit set to \<open>x\<close> and the limit before the call saved. The second pass,
  from whatever pool \<open>q\<close> it finds, either returns normally with the limit as it
  found it and \<open>current_memory \<le> x\<close>, or throws the same exception with
  \<open>maximum_memory\<close> set back to the saved limit.
\<close>

theorem SetLimit_outcome:
  assumes "\<not> purge_active p" and "\<not> purge_active q"
  shows "((\<exists>p'. SetLimit c x suffix p = Some (None, p')
              \<and> maximum_memory p' = x \<and> current_memory p' \<le> x)
        \<or> (\<exists>p'. SetLimit c x suffix p = Some (Some (OutOfMemoryException x suffix), p')
              \<and> maximum_memory p' = maximum_memory p \<and> x < current_memory p'))
       \<and> (\<exists>r1 o1 p1. EvictBlocks (EXTENSION c) 0 x False p = Some (r1, o1, p1)
              \<and> (\<not> success r1 \<longrightarrow>
                    SetLimit c x suffix p
                      = Some (Some (OutOfMemoryException x suffix), p1))
              \<and> (success r1 \<longrightarrow>
                    SetLimit c x suffix p
                      = SetLimit_second_pass c x suffix (maximum_memory p)
                          (p1\<lparr>maximum_memory := x\<rparr>)))
       \<and> ((\<exists>q'. SetLimit_second_pass c x suffix old_limit q = Some (None, q')
              \<and> maximum_memory q' = maximum_memory q \<and> current_memory q' \<le> x)
        \<or> (\<exists>q'. SetLimit_second_pass c x suffix old_limit q
                   = Some (Some (OutOfMemoryException x suffix), q')
              \<and> maximum_memory q' = old_limit \<and> x < current_memory q'))"
proof -
  obtain r1 o1 p1 where e1: "EvictBlocks (EXTENSION c) 0 x False p = Some (r1, o1, p1)"
    using EvictBlocks_total [OF assms(1)] by blast
  note x1 = EvictBlocks_exit [OF e1]
  have held: "Resize0 (EXTENSION c) (reservation r1) p1 = p1"
    using x1 by (cases "success r1") (simp_all add: Resize0_def DecreaseUsedMemory_def)
  have fail: "SetLimit c x suffix p = Some (Some (OutOfMemoryException x suffix), p1)"
    if "\<not> success r1"
    using that e1 held by (simp add: SetLimit_def Let_def)
  have pass: "SetLimit c x suffix p
              = SetLimit_second_pass c x suffix (maximum_memory p) (p1\<lparr>maximum_memory := x\<rparr>)"
    if "success r1"
    using that e1 held x1 by (simp add: SetLimit_def Let_def)
  have whole: "(\<exists>p'. SetLimit c x suffix p = Some (None, p')
              \<and> maximum_memory p' = x \<and> current_memory p' \<le> x)
        \<or> (\<exists>p'. SetLimit c x suffix p = Some (Some (OutOfMemoryException x suffix), p')
              \<and> maximum_memory p' = maximum_memory p \<and> x < current_memory p')"
  proof (cases "success r1")
    case False
    then show ?thesis using fail x1 EvictBlocks_failed [OF e1 False] by simp
  next
    case True
    have "\<not> purge_active (p1\<lparr>maximum_memory := x\<rparr>)" using x1 assms(1) by simp
    from SetLimit_second_pass_outcome [OF this, of c x suffix "maximum_memory p"]
    show ?thesis using pass [OF True] by simp
  qed
  show ?thesis
    using whole e1 fail pass SetLimit_second_pass_outcome [OF assms(2), of c x suffix old_limit]
    by blast
qed

text \<open>
  All three outcomes happen. Lowering the limit of \<open>pool_one\<close> to 0 evicts its
  block. Lowering the limit of \<open>pool_pinned\<close> to 40 throws in the first pass and
  leaves the limit at 100. In \<open>pool_raced\<close> another thread has reserved 40 bytes
  after the first pass of that call on \<open>pool_one\<close>: the second pass throws and sets
  the limit back from 0 to the saved 100.
\<close>

theorem SetLimit_outcome_witness:
  "\<not> purge_active pool_one
   \<and> (\<exists>p'. SetLimit spec_defaults 0 [] pool_one = Some (None, p')
          \<and> maximum_memory p' = 0 \<and> current_memory p' \<le> 0)
   \<and> \<not> purge_active pool_pinned
   \<and> (\<exists>p'. SetLimit spec_defaults 40 '' suffix'' pool_pinned
              = Some (Some (OutOfMemoryException 40 '' suffix''), p')
          \<and> maximum_memory p' = maximum_memory pool_pinned)
   \<and> \<not> purge_active pool_raced
   \<and> maximum_memory pool_raced = 0
   \<and> (\<exists>q'. SetLimit_second_pass spec_defaults 0 [] 100 pool_raced
              = Some (Some (OutOfMemoryException 0 []), q')
          \<and> maximum_memory q' = 100 \<and> 0 < current_memory q')"
proof -
  have a: "\<not> purge_active pool_one" by (simp add: pool_one_def)
  have b: "\<not> purge_active pool_pinned" by (simp add: pool_pinned_def)
  have d: "\<not> purge_active pool_raced" by (simp add: pool_raced_def)
  have m: "maximum_memory pool_raced = 0" by (simp add: pool_raced_def)
  have ok: "fst (the (SetLimit spec_defaults 0 [] pool_one)) = None"
    by (simp add: SetLimit_def SetLimit_second_pass_def eval_defs pool_one_def h0_def spec_defaults_def)
  have oom: "fst (the (SetLimit spec_defaults 40 '' suffix'' pool_pinned)) \<noteq> None"
    by (simp add: SetLimit_def SetLimit_second_pass_def eval_defs pool_pinned_def h0_def spec_defaults_def)
  have raced: "fst (the (SetLimit_second_pass spec_defaults 0 [] 100 pool_raced)) \<noteq> None"
    by (simp add: SetLimit_second_pass_def eval_defs pool_raced_def h0_def spec_defaults_def)
  from SetLimit_outcome [OF a d, of spec_defaults 0 "[]" 100] ok
  have 1: "\<exists>p'. SetLimit spec_defaults 0 [] pool_one = Some (None, p')
          \<and> maximum_memory p' = 0 \<and> current_memory p' \<le> 0"
    by auto
  from SetLimit_outcome [OF a d, of spec_defaults 0 "[]" 100] raced
  have 3: "\<exists>q'. SetLimit_second_pass spec_defaults 0 [] 100 pool_raced
              = Some (Some (OutOfMemoryException 0 []), q')
          \<and> maximum_memory q' = 100 \<and> 0 < current_memory q'"
    by auto
  from SetLimit_outcome [OF b d, of spec_defaults 40 "'' suffix''" 100] oom
  have 2: "\<exists>p'. SetLimit spec_defaults 40 '' suffix'' pool_pinned
              = Some (Some (OutOfMemoryException 40 '' suffix''), p')
          \<and> maximum_memory p' = maximum_memory pool_pinned"
    by auto
  from a b d m 1 2 3 show ?thesis by blast
qed

section \<open>The bound after a successful eviction\<close>

text \<open>
  The claim C3 as stated fails on the fast path: asked for 40 bytes under a limit
  of 0 with a buffer to fill, \<open>EvictBlocks\<close> takes the block of the first hint and
  reports success with \<open>current_memory = 80\<close>, above \<open>0 + 40\<close>.
\<close>

theorem EvictBlocks_fast_path_over_limit:
  "EvictBlocks 0 40 0 True pool_two
     = Some (\<lparr>success = True, reservation = 40\<rparr>, Some 0,
             pool_two\<lparr>current_memory := 80,
                      queue := [\<lparr>handle = Some 1, timestamp = 1\<rparr>],
                      evict_queue_insertions := 1,
                      handles := [0 \<mapsto> h0\<lparr>eviction_timestamp := 1, state := BLOCK_UNLOADED\<rparr>,
                                  1 \<mapsto> h0\<lparr>eviction_timestamp := 1\<rparr>]\<rparr>)
   \<and> \<not> unat (80 :: idx_t) \<le> unat (0 :: idx_t) + unat (40 :: idx_t)"
  by (simp add: eval_defs pool_two_def h0_def fun_upd_twist)

text \<open>
  An unload takes the bytes of a loaded block out of the sum and out of
  \<open>current_memory\<close>, which therefore does not wrap.
\<close>

lemma loaded_bytes_split:
  assumes "finite (dom hs)" and "hs a = Some h"
  shows "loaded_bytes hs = bytes_at hs a + sum (bytes_at hs) (dom hs - {a})"
  using assms by (simp add: loaded_bytes_def sum.remove [of "dom hs" a] domI)

lemma loaded_bytes_unload:
  assumes "finite (dom hs)" and "hs a = Some h" and "state h = BLOCK_LOADED"
  shows "loaded_bytes (hs(a \<mapsto> h\<lparr>state := BLOCK_UNLOADED\<rparr>)) + unat (alloc_size h) = loaded_bytes hs"
proof -
  let ?hs' = "hs(a \<mapsto> h\<lparr>state := BLOCK_UNLOADED\<rparr>)"
  have d: "dom ?hs' = dom hs" using assms(2) by (auto simp: domI)
  have 1: "loaded_bytes ?hs' = bytes_at ?hs' a + sum (bytes_at ?hs') (dom ?hs' - {a})"
    by (rule loaded_bytes_split [where h = "h\<lparr>state := BLOCK_UNLOADED\<rparr>"]) (simp_all add: d assms(1))
  have 2: "bytes_at ?hs' a = 0" by (simp add: bytes_at_def)
  have 3: "sum (bytes_at ?hs') (dom ?hs' - {a}) = sum (bytes_at hs) (dom hs - {a})"
    unfolding d by (rule sum.cong) (simp_all add: bytes_at_def)
  have 4: "bytes_at hs a = unat (alloc_size h)" using assms(2,3) by (simp add: bytes_at_def)
  show ?thesis using 1 2 3 4 loaded_bytes_split [OF assms(1,2)] by linarith
qed

lemma accounted_unload:
  assumes "accounted p" and "handles p a = Some h" and "state h = BLOCK_LOADED"
  shows "alloc_size h \<le> current_memory p"
    and "unat (current_memory p - alloc_size h) + unat (alloc_size h) = unat (current_memory p)"
    and "accounted (Unload a h p)"
proof -
  have fin: "finite (dom (handles p))" and le: "loaded_bytes (handles p) \<le> unat (current_memory p)"
    using assms(1) by (simp_all add: accounted_def)
  note u = loaded_bytes_unload [OF fin assms(2,3)]
  then have "unat (alloc_size h) \<le> unat (current_memory p)" using le by linarith
  then show 1: "alloc_size h \<le> current_memory p" by (simp add: word_le_nat_alt)
  then show 2: "unat (current_memory p - alloc_size h) + unat (alloc_size h) = unat (current_memory p)"
    by (simp add: unat_sub word_le_nat_alt)
  have "dom ((handles p)(a \<mapsto> h\<lparr>state := BLOCK_UNLOADED\<rparr>)) = dom (handles p)"
    using assms(2) by (auto simp: domI)
  then show "accounted (Unload a h p)"
    using fin le u 2 by (simp add: accounted_def)
qed

text \<open>
  When a block is taken over, \<open>current_memory\<close> is at most what it was before the
  reservation of \<open>extra_memory\<close> was made, whether or not the reservation wrapped
  the counter: the blocks unloaded on the way were loaded blocks, whose bytes
  were part of \<open>current_memory\<close> then.
\<close>

lemma EvictLoop_fast_path:
  "accounted (p\<lparr>current_memory := current_memory p - e\<rparr>) \<Longrightarrow>
   EvictLoop t e l b p = Some (r, out, p') \<Longrightarrow> out \<noteq> None \<Longrightarrow>
   unat (current_memory p') \<le> unat (current_memory p - e)"
proof (induction p rule: EvictLoop_cases_induct [where l = l and b = b and e = e])
  case (finished p)
  then show ?case by (simp add: EvictLoop_done)
next
  case (spin p)
  then show ?case by (simp add: EvictLoop_spin)
next
  case (empty p p1)
  then show ?case by (simp add: EvictLoop_empty)
next
  case (skip p p1 node)
  note f = dequeue_node_fields [OF skip(2)]
  have "accounted ((skipped p1)\<lparr>current_memory := current_memory (skipped p1) - e\<rparr>)"
    using skip.prems(1) f by (simp add: accounted_def)
  then show ?case using skip f by (simp add: EvictLoop_skip)
next
  case (take p p1 node a h)
  note f = dequeue_node_fields [OF take(2)]
  have "p' = UnloadAndTakeBlock a h (dequeued p1)" using take by (simp add: EvictLoop_take)
  then have "current_memory p' = current_memory p - e" using take(5) f by simp
  then show ?case by simp
next
  case (unload p p1 node a h)
  note f = dequeue_node_fields [OF unload(2)]
  note g = TryGetBlockHandle_SomeD [OF unload(3)] CanUnloadD [OF unload(4)]
  let ?q = "(dequeued p1)\<lparr>current_memory := current_memory p - e\<rparr>"
  let ?u = "Unload a h (dequeued p1)"
  have acc: "accounted ?q" using unload.prems(1) f by (simp add: accounted_def)
  have h: "handles ?q a = Some h" "state h = BLOCK_LOADED" using g by simp_all
  have run: "EvictLoop t e l b ?u = Some (r, out, p')"
    using unload by (simp add: EvictLoop_unload)
  have comm: "current_memory p - alloc_size h - e = current_memory p - e - alloc_size h"
    by simp
  have "accounted (Unload a h ?q)" using acc h by (rule accounted_unload(3))
  then have "accounted (?u\<lparr>current_memory := current_memory ?u - e\<rparr>)"
    using f by (simp add: accounted_def comm)
  then have "unat (current_memory p') \<le> unat (current_memory ?u - e)"
    using run unload.prems(3) by (rule unload.IH)
  moreover have "unat (current_memory (Unload a h ?q)) \<le> unat (current_memory p - e)"
    using accounted_unload(2) [OF acc h] by simp
  ultimately show ?case using f by (simp add: comm)
qed

text \<open>
  C3, amended. Let \<open>EvictBlocks\<close> report success. If no block was handed over
  through \<open>buffer\<close> (always so when the caller passes no buffer, by
  \<open>EvictBlocks_exit\<close>), the loop was left by its condition:
  \<open>current_memory \<le> memory_limit\<close>, hence at most \<open>memory_limit + extra_memory\<close>. If
  the call returned through the fast path, \<open>current_memory\<close> is at most
  \<open>memory_limit + extra_memory\<close> provided that it was so before the call and that
  the loaded blocks are accounted for in \<open>current_memory\<close> (so that each unload
  subtracts \<open>alloc_size\<close> without wrapping).
\<close>

theorem EvictBlocks_success_limit:
  assumes "EvictBlocks t extra_memory memory_limit buffer p = Some (r, out, p')"
    and "success r"
    and "out = None
         \<or> (accounted p
            \<and> unat (current_memory p) \<le> unat memory_limit + unat extra_memory)"
  shows "unat (current_memory p') \<le> unat memory_limit + unat extra_memory
       \<and> (out = None \<longrightarrow> current_memory p' \<le> memory_limit)"
proof (cases "out = None")
  case True
  then have "current_memory p' \<le> memory_limit"
    using EvictBlocks_exit [OF assms(1)] assms(2) by simp
  then show ?thesis by (simp add: word_le_nat_alt)
next
  case False
  let ?p1 = "TempBufferPoolReservation t extra_memory p"
  from False assms(3) have acc: "accounted p"
    and le: "unat (current_memory p) \<le> unat memory_limit + unat extra_memory"
    by auto
  have cm: "current_memory ?p1 - extra_memory = current_memory p" by simp
  have "accounted (?p1\<lparr>current_memory := current_memory ?p1 - extra_memory\<rparr>)"
    using acc by (simp add: accounted_def)
  moreover have "EvictLoop t extra_memory memory_limit buffer ?p1 = Some (r, out, p')"
    using assms(1) by (simp add: EvictBlocks_def)
  ultimately have "unat (current_memory p') \<le> unat (current_memory ?p1 - extra_memory)"
    using False by (rule EvictLoop_fast_path)
  then show ?thesis using cm le False by auto
qed

text \<open>
  Both cases on \<open>pool_one\<close>: evicting to limit 0 without a buffer ends at 0 bytes;
  asking for 40 bytes with a buffer takes the block over and ends at 40 bytes.
\<close>

theorem EvictBlocks_success_limit_witness:
  "EvictBlocks 0 0 0 False pool_one
     = Some (\<lparr>success = True, reservation = 0\<rparr>, None,
             pool_one\<lparr>current_memory := 0, queue := [], evict_queue_insertions := 0,
                      memory_usage_per_tag := [0, 0],
                      handles := [0 \<mapsto> h0\<lparr>eviction_timestamp := 1, state := BLOCK_UNLOADED\<rparr>]\<rparr>)
   \<and> unat (0 :: idx_t) \<le> unat (0 :: idx_t) + unat (0 :: idx_t)
   \<and> EvictBlocks 0 40 0 True pool_one
     = Some (\<lparr>success = True, reservation = 40\<rparr>, Some 0,
             pool_one\<lparr>current_memory := 40, queue := [], evict_queue_insertions := 0,
                      handles := [0 \<mapsto> h0\<lparr>eviction_timestamp := 1, state := BLOCK_UNLOADED\<rparr>]\<rparr>)
   \<and> accounted pool_one
   \<and> unat (current_memory pool_one) \<le> unat (0 :: idx_t) + unat (40 :: idx_t)
   \<and> unat (40 :: idx_t) \<le> unat (0 :: idx_t) + unat (40 :: idx_t)"
proof -
  let ?a = "pool_one\<lparr>current_memory := 0, queue := [], evict_queue_insertions := 0,
                      memory_usage_per_tag := [0, 0],
                      handles := [0 \<mapsto> h0\<lparr>eviction_timestamp := 1, state := BLOCK_UNLOADED\<rparr>]\<rparr>"
  let ?b = "pool_one\<lparr>current_memory := 40, queue := [], evict_queue_insertions := 0,
                      handles := [0 \<mapsto> h0\<lparr>eviction_timestamp := 1, state := BLOCK_UNLOADED\<rparr>]\<rparr>"
  have a: "EvictBlocks 0 0 0 False pool_one = Some (\<lparr>success = True, reservation = 0\<rparr>, None, ?a)"
    by (simp add: eval_defs pool_one_def h0_def)
  have b: "EvictBlocks 0 40 0 True pool_one = Some (\<lparr>success = True, reservation = 40\<rparr>, Some 0, ?b)"
    by (simp add: eval_defs pool_one_def h0_def)
  have acc: "accounted pool_one"
    by (simp add: accounted_def loaded_bytes_def bytes_at_def pool_one_def h0_def)
  have le: "unat (current_memory pool_one) \<le> unat (0 :: idx_t) + unat (40 :: idx_t)"
    by (simp add: pool_one_def)
  have pre: "Some (0 :: handle_ref) = None
         \<or> (accounted pool_one
            \<and> unat (current_memory pool_one) \<le> unat (0 :: idx_t) + unat (40 :: idx_t))"
    using acc le by simp
  have "unat (current_memory ?a) \<le> unat (0 :: idx_t) + unat (0 :: idx_t)"
    using EvictBlocks_success_limit [OF a] by simp
  moreover have "unat (current_memory ?b) \<le> unat (0 :: idx_t) + unat (40 :: idx_t)"
    using EvictBlocks_success_limit [OF b _ pre] by simp
  ultimately show ?thesis using a b acc le by simp
qed

section \<open>Purge iterations\<close>

text \<open>
  The compaction in place: the cells below \<open>alive_nodes\<close> hold the alive hints
  seen so far, in their order; the cells from \<open>i\<close> on are as they were.
\<close>

lemma length_move_node [simp]: "length (move_node a i ns) = length ns"
  by (simp add: move_node_def)

lemma take_move_node:
  "a \<le> i \<Longrightarrow> i < length ns \<Longrightarrow> take (Suc a) (move_node a i ns) = take a ns @ [ns ! i]"
proof (cases "a = i")
  assume i: "i < length ns"
  case True
  then show ?thesis using i by (simp add: move_node_def take_Suc_conv_app_nth)
next
  case False
  assume "a \<le> i" and i: "i < length ns"
  with False have lt: "a < i" by simp
  have "take (Suc a) (move_node a i ns) = take (Suc a) (ns[a := ns ! i])"
    using lt by (simp add: move_node_def)
  also have "\<dots> = take a ns @ [ns ! i]"
    using lt i by (simp add: take_Suc_conv_app_nth)
  finally show ?thesis .
qed

lemma drop_move_node:
  "a \<le> i \<Longrightarrow> drop (Suc i) (move_node a i ns) = drop (Suc i) ns"
  by (simp add: move_node_def)

lemma retrieve_alive_stop:
  "\<not> i < n \<Longrightarrow> retrieve_alive hs n i a ns = (ns, a)"
  by (subst retrieve_alive.simps) simp

lemma retrieve_alive_keep:
  "i < n \<Longrightarrow> TryGetBlockHandle hs (ns ! i) = Some x \<Longrightarrow>
   retrieve_alive hs n i a ns = retrieve_alive hs n (i + 1) (a + 1) (move_node a i ns)"
  by (subst retrieve_alive.simps) simp

lemma retrieve_alive_drop:
  "i < n \<Longrightarrow> TryGetBlockHandle hs (ns ! i) = None \<Longrightarrow>
   retrieve_alive hs n i a ns = retrieve_alive hs n (i + 1) a ns"
  by (subst retrieve_alive.simps) simp

lemma retrieve_alive_filter:
  "a \<le> i \<Longrightarrow> i \<le> n \<Longrightarrow> n \<le> length ns \<Longrightarrow>
   retrieve_alive hs n i a ns = (ns', a') \<Longrightarrow>
   take a' ns' = take a ns @ filter (alive hs) (take (n - i) (drop i ns))
   \<and> length ns' = length ns \<and> a' \<le> n"
proof (induction hs n i a ns arbitrary: ns' a' rule: retrieve_alive.induct)
  case (1 hs n i a ns)
  show ?case
  proof (cases "i < n")
    case False
    with "1.prems" show ?thesis by (simp add: retrieve_alive_stop)
  next
    case True
    then have split: "take (n - i) (drop i ns) = ns ! i # take (n - Suc i) (drop (Suc i) ns)"
      using "1.prems"(3)
      by (metis Cons_nth_drop_Suc Suc_diff_Suc less_le_trans take_Suc_Cons)
    show ?thesis
    proof (cases "TryGetBlockHandle hs (ns ! i)")
      case None
      then have r: "retrieve_alive hs n (i + 1) a ns = (ns', a')"
        using True "1.prems"(4) by (simp add: retrieve_alive_drop)
      have "take a' ns' = take a ns @ filter (alive hs) (take (n - (i + 1)) (drop (i + 1) ns))
            \<and> length ns' = length ns \<and> a' \<le> n"
        using "1.IH"(1) [OF True None _ _ _ r] True "1.prems" by simp
      moreover have "\<not> alive hs (ns ! i)" using None by (simp add: alive_def)
      ultimately show ?thesis using split by simp
    next
      case (Some x)
      then have r: "retrieve_alive hs n (i + 1) (a + 1) (move_node a i ns) = (ns', a')"
        using True "1.prems"(4) by (simp add: retrieve_alive_keep)
      have "take a' ns' = take (a + 1) (move_node a i ns)
               @ filter (alive hs) (take (n - (i + 1)) (drop (i + 1) (move_node a i ns)))
            \<and> length ns' = length (move_node a i ns) \<and> a' \<le> n"
        using "1.IH"(2) [OF True Some _ _ _ r] True "1.prems" by simp
      moreover have "alive hs (ns ! i)" using Some by (simp add: alive_def)
      ultimately show ?thesis
        using split True "1.prems" by (simp add: take_move_node drop_move_node)
    qed
  qed
qed

lemma retrieve_alive_prefix:
  assumes "retrieve_alive hs (length dq) 0 0 (dq @ rest) = (ns2, a2)"
  shows "take a2 ns2 = filter (alive hs) dq" and "a2 = length (filter (alive hs) dq)"
proof -
  have "take a2 ns2 = take 0 (dq @ rest) @ filter (alive hs) (take (length dq - 0) (drop 0 (dq @ rest)))
        \<and> length ns2 = length (dq @ rest) \<and> a2 \<le> length dq"
    by (rule retrieve_alive_filter [OF _ _ _ assms]) simp_all
  then have t: "take a2 ns2 = filter (alive hs) dq" and l: "a2 \<le> length ns2"
    by simp_all
  show "take a2 ns2 = filter (alive hs) dq" by (rule t)
  have "length (take a2 ns2) = a2" using l by simp
  then show "a2 = length (filter (alive hs) dq)" using t by simp
qed

lemma PurgeIteration_fields [simp]:
  "handles (PurgeIteration ps p) = handles p"
  "current_memory (PurgeIteration ps p) = current_memory p"
  "maximum_memory (PurgeIteration ps p) = maximum_memory p"
  "evict_queue_insertions (PurgeIteration ps p) = evict_queue_insertions p"
  "purge_active (PurgeIteration ps p) = purge_active p"
  "memory_usage_per_tag (PurgeIteration ps p) = memory_usage_per_tag p"
  by (simp_all add: PurgeIteration_def Let_def split: prod.splits)

text \<open>
  The queue and the dead-node counter after a purge iteration, with the scratch
  vector out of the picture.
\<close>

lemma PurgeIteration_queue_dead:
  "queue (PurgeIteration ps p)
     = drop (unat ps) (queue p) @ filter (alive (handles p)) (take (unat ps) (queue p))
   \<and> total_dead_nodes (PurgeIteration ps p)
     = total_dead_nodes p
       - of_nat (length (take (unat ps) (queue p))
                 - length (filter (alive (handles p)) (take (unat ps) (queue p))))"
proof -
  define dq where "dq = take (unat ps) (queue p)"
  define ns0 where "ns0 = (if unat ps < length (purge_nodes p) div 2 \<or> unat ps > length (purge_nodes p)
              then resize (unat ps) (purge_nodes p) else purge_nodes p)"
  obtain ns2 a2 where r: "retrieve_alive (handles p) (length dq) 0 0 (dq @ drop (length dq) ns0) = (ns2, a2)"
    by (cases "retrieve_alive (handles p) (length dq) 0 0 (dq @ drop (length dq) ns0)")
  note pre = retrieve_alive_prefix [OF r]
  have "PurgeIteration ps p =
          p\<lparr>queue := drop (unat ps) (queue p) @ take a2 ns2, purge_nodes := ns2,
            total_dead_nodes := total_dead_nodes p - of_nat (length dq - a2)\<rparr>"
    using r unfolding PurgeIteration_def try_dequeue_bulk_def enqueue_bulk_def Let_def
      dq_def [symmetric] ns0_def [symmetric] prod.case
    by simp
  then show ?thesis using pre by (simp add: dq_def)
qed

lemma alive_iff:
  "alive hs n \<longleftrightarrow>
     (\<exists>a h. handle n = Some a \<and> hs a = Some h \<and> timestamp n = eviction_timestamp h
            \<and> BlockHandle_CanUnload h)"
proof (cases "handle n")
  case None
  then show ?thesis by (simp add: alive_def TryGetBlockHandle_def lock_def)
next
  case (Some a)
  show ?thesis
  proof (cases "hs a")
    case None
    with Some show ?thesis by (simp add: alive_def TryGetBlockHandle_def lock_def)
  next
    case (Some h)
    with \<open>handle n = Some a\<close> show ?thesis
      by (simp add: alive_def TryGetBlockHandle_def lock_def CanUnload_def)
  qed
qed

text \<open>
  C1, amended. A purge iteration re-enqueues, behind the hints it did not touch
  and in their order, exactly those dequeued hints for which \<open>TryGetBlockHandle\<close>
  returns a handle: the weak pointer locks, the hint's timestamp equals the
  handle's current \<open>eviction_timestamp\<close>, and the handle can be unloaded. A hint
  with a stale timestamp is dropped even though its handle is alive.
\<close>

theorem PurgeIteration_keeps:
  "queue (PurgeIteration purge_size p)
     = drop (unat purge_size) (queue p)
       @ filter (\<lambda>n. \<exists>a h. handle n = Some a \<and> handles p a = Some h
                          \<and> timestamp n = eviction_timestamp h \<and> BlockHandle_CanUnload h)
           (take (unat purge_size) (queue p))"
  using PurgeIteration_queue_dead [of purge_size p] by (simp add: alive_iff [abs_def])

text \<open>
  The claim C1 as stated fails: the weak pointer of the stale hint of
  \<open>pool_stale\<close> locks, the hint is among those dequeued, and it is not re-enqueued.
\<close>

theorem PurgeIteration_drops_stale:
  "lock (handles pool_stale) \<lparr>handle = Some 0, timestamp = 1\<rparr> = Some (0, h0\<lparr>eviction_timestamp := 2\<rparr>)
   \<and> fst (try_dequeue_bulk (unat (1 :: idx_t)) (queue pool_stale)) = [\<lparr>handle = Some 0, timestamp = 1\<rparr>]
   \<and> queue (PurgeIteration 1 pool_stale) = [\<lparr>handle = Some 0, timestamp = 2\<rparr>]"
  by (simp add: PurgeIteration_queue_dead alive_iff pool_stale_def lock_def try_dequeue_bulk_def h0_def)

section \<open>The purge loop\<close>

lemma PurgeLoop_zero:
  "PurgeLoop c ps 0 p = (p\<lparr>purge_active := False\<rparr>, 0)"
  by (subst PurgeLoop.simps) simp

lemma PurgeLoop_stop:
  "m \<noteq> 0 \<Longrightarrow> early_out c ps (PurgeIteration ps p) \<Longrightarrow>
   PurgeLoop c ps m p = ((PurgeIteration ps p)\<lparr>purge_active := False\<rparr>, 1)"
  by (subst PurgeLoop.simps) (auto simp: early_out_def Let_def)

lemma PurgeLoop_next:
  "m \<noteq> 0 \<Longrightarrow> \<not> early_out c ps (PurgeIteration ps p) \<Longrightarrow>
   PurgeLoop c ps m p
     = (case PurgeLoop c ps (m - 1) (PurgeIteration ps p) of (p2, k) \<Rightarrow> (p2, k + 1))"
  by (subst PurgeLoop.simps) (auto simp: early_out_def Let_def)

text \<open>
  Induction over the iterations of the sweep loop: \<open>max_purges\<close> is zero; the
  iteration leaves the loop; the iteration continues with \<open>max_purges - 1\<close>.
\<close>

lemma PurgeLoop_cases_induct [case_names zero stop continue]:
  assumes "\<And>p. P 0 p"
    and "\<And>m p. m \<noteq> 0 \<Longrightarrow> early_out c ps (PurgeIteration ps p) \<Longrightarrow> P m p"
    and "\<And>m p. m \<noteq> 0 \<Longrightarrow> \<not> early_out c ps (PurgeIteration ps p) \<Longrightarrow>
           P (m - 1) (PurgeIteration ps p) \<Longrightarrow> P m p"
  shows "P (m :: idx_t) p"
proof (induction "unat m" arbitrary: m p rule: less_induct)
  case (less m p)
  show ?case
  proof (cases "m = 0")
    case True
    then show ?thesis by (simp add: assms(1))
  next
    case False
    then have "unat (m - 1) < unat m" by (simp add: unat_minus_one unat_gt_0)
    then have "P (m - 1) (PurgeIteration ps p)" by (rule less)
    with False show ?thesis by (cases "early_out c ps (PurgeIteration ps p)") (auto intro: assms)
  qed
qed

lemma PurgeLoop_iterations: "snd (PurgeLoop c ps m p) \<le> unat m"
proof (induction m p rule: PurgeLoop_cases_induct [where c = c and ps = ps])
  case (zero p)
  show ?case by (simp add: PurgeLoop_zero)
next
  case (stop m p)
  then show ?case by (simp add: PurgeLoop_stop unat_gt_0 Suc_leI)
next
  case (continue m p)
  then have "unat (m - 1) < unat m" by (simp add: unat_minus_one unat_gt_0)
  with continue show ?case by (auto simp: PurgeLoop_next split: prod.splits)
qed

text \<open>
  The definitions a concrete purge is evaluated with.
\<close>

lemmas purge_eval_defs =
  PurgeQueue_def PurgeQueue_counted_def PurgeLoop.simps PurgeIteration_def
  retrieve_alive.simps resize_def try_dequeue_bulk_def enqueue_bulk_def size_approx_def
  TryGetBlockHandle_def lock_def CanUnload_def BlockHandle_CanUnload_def Let_def word_less_nat_alt

lemma pool_twelve_sweeps: "snd (PurgeQueue_counted spec_defaults pool_twelve) = 3"
  by (simp add: purge_eval_defs move_node_def pool_twelve_def spec_defaults_def h0_def)

lemma pool_twelve_continues:
  "\<not> early_out spec_defaults 2 (PurgeIteration 2 pool_twelve)"
  by (simp add: early_out_def purge_eval_defs move_node_def pool_twelve_def spec_defaults_def h0_def)

text \<open>
  C5. \<open>PurgeQueue\<close> is a total function: every call ends, by a return or by the
  trap of line 228 (then no iteration has run). A call runs at most
  \<open>size_approx(Q) / purge_size\<close> purge iterations, where \<open>purge_size\<close> is the insertion
  count it fetched times \<open>PURGE_SIZE_MULTIPLIER\<close>, whatever the queue holds: the
  sweep loop started with \<open>max_purges\<close> calls \<open>PurgeIteration\<close> at most
  \<open>max_purges\<close> times, because an iteration that does not leave the loop continues
  with \<open>max_purges - 1\<close>, which is strictly less.
\<close>

theorem PurgeQueue_bounded:
  "snd (PurgeQueue_counted c p)
     \<le> unat (size_approx (queue p) div (evict_queue_insertions p * PURGE_SIZE_MULTIPLIER c))
   \<and> snd (PurgeLoop c purge_size max_purges p) \<le> unat max_purges
   \<and> (max_purges \<noteq> 0 \<and> \<not> early_out c purge_size (PurgeIteration purge_size p) \<longrightarrow>
        PurgeLoop c purge_size max_purges p
          = (case PurgeLoop c purge_size (max_purges - 1) (PurgeIteration purge_size p) of
               (p2, k) \<Rightarrow> (p2, k + 1))
        \<and> unat (max_purges - 1) < unat max_purges)"
proof -
  let ?ps = "evict_queue_insertions p * PURGE_SIZE_MULTIPLIER c"
  let ?p2 = "p\<lparr>purge_active := True, evict_queue_insertions := evict_queue_insertions p - INSERT_INTERVAL c\<rparr>"
  have "snd (PurgeLoop c ?ps (size_approx (queue p) div ?ps) ?p2) \<le> unat (size_approx (queue p) div ?ps)"
    by (rule PurgeLoop_iterations)
  then have 1: "snd (PurgeQueue_counted c p) \<le> unat (size_approx (queue p) div ?ps)"
    by (auto simp: PurgeQueue_counted_def Let_def split: prod.splits)
  have 2: "max_purges \<noteq> 0 \<Longrightarrow> unat (max_purges - 1) < unat max_purges"
    by (simp add: unat_minus_one unat_gt_0)
  show ?thesis using 1 2 by (simp add: PurgeLoop_iterations PurgeLoop_next)
qed

text \<open>
  On \<open>pool_twelve\<close> the bound is 6, the first iteration does not leave the
  loop, and the call runs three iterations.
\<close>

theorem PurgeQueue_bounded_witness:
  "(6 :: idx_t) \<noteq> 0 \<and> \<not> early_out spec_defaults 2 (PurgeIteration 2 pool_twelve)
   \<and> PurgeLoop spec_defaults 2 6 pool_twelve
       = (case PurgeLoop spec_defaults 2 (6 - 1) (PurgeIteration 2 pool_twelve) of
            (p2, k) \<Rightarrow> (p2, k + 1))
   \<and> unat (6 - 1 :: idx_t) < unat (6 :: idx_t)
   \<and> snd (PurgeQueue_counted spec_defaults pool_twelve) = 3
   \<and> (3 :: nat) \<le> unat (size_approx (queue pool_twelve)
                          div (evict_queue_insertions pool_twelve * PURGE_SIZE_MULTIPLIER spec_defaults))"
  using PurgeQueue_bounded [of spec_defaults pool_twelve 2 6] pool_twelve_continues pool_twelve_sweeps
  by simp

section \<open>The divisor of line 228\<close>

text \<open>
  C8. The claim says that the divisor \<open>purge_size\<close> is never zero where
  \<open>approx_q_size / purge_size\<close> is computed. The code divides by zero: on a pool
  that has just been constructed \<open>evict_queue_insertions\<close> is 0, so \<open>purge_size\<close> is
  0, the early-out test \<open>approx_q_size < 0\<close> is false, and line 228 is reached.
\<close>

theorem PurgeQueue_new_pool_traps:
  "PurgeQueue c (BufferPool_new c raw hs m) = Inl DivisionByZero"
  by (simp add: PurgeQueue_def PurgeQueue_counted_def BufferPool_new_def size_approx_def Let_def)


section \<open>Calling \<open>PurgeQueue\<close> twice\<close>

text \<open>
  A purge only removes hints from the queue, and none that is alive.
\<close>

lemma PurgeIteration_mset:
  "mset (queue (PurgeIteration ps p)) \<subseteq># mset (queue p)"
  and PurgeIteration_alive:
  "filter_mset (alive (handles p)) (mset (queue (PurgeIteration ps p)))
     = filter_mset (alive (handles p)) (mset (queue p))"
proof -
  let ?k = "unat ps"
  have q: "mset (queue p) = mset (drop ?k (queue p)) + mset (take ?k (queue p))"
    by (metis append_take_drop_id mset_append union_commute)
  have q': "mset (queue (PurgeIteration ps p))
            = mset (drop ?k (queue p)) + filter_mset (alive (handles p)) (mset (take ?k (queue p)))"
    by (simp add: PurgeIteration_queue_dead)
  show "mset (queue (PurgeIteration ps p)) \<subseteq># mset (queue p)"
    unfolding q' by (subst q) simp
  show "filter_mset (alive (handles p)) (mset (queue (PurgeIteration ps p)))
     = filter_mset (alive (handles p)) (mset (queue p))"
    using arg_cong [OF q, of "filter_mset (alive (handles p))"] by (simp add: q' filter_filter_mset)
qed

lemma PurgeLoop_preserves:
  "PurgeLoop c ps m p = (p', k) \<Longrightarrow>
     handles p' = handles p \<and> current_memory p' = current_memory p
   \<and> maximum_memory p' = maximum_memory p
   \<and> memory_usage_per_tag p' = memory_usage_per_tag p
   \<and> evict_queue_insertions p' = evict_queue_insertions p
   \<and> \<not> purge_active p'
   \<and> mset (queue p') \<subseteq># mset (queue p)
   \<and> filter_mset (alive (handles p)) (mset (queue p'))
       = filter_mset (alive (handles p)) (mset (queue p))"
proof (induction m p arbitrary: p' k rule: PurgeLoop_cases_induct [where c = c and ps = ps])
  case (zero p)
  then show ?case by (auto simp: PurgeLoop_zero)
next
  case (stop m p)
  then show ?case
    using PurgeIteration_mset [where ps = ps and p = p] PurgeIteration_alive [where ps = ps and p = p]
    by (auto simp: PurgeLoop_stop)
next
  case (continue m p)
  obtain p2 k2 where r: "PurgeLoop c ps (m - 1) (PurgeIteration ps p) = (p2, k2)"
    by (cases "PurgeLoop c ps (m - 1) (PurgeIteration ps p)")
  with continue.prems continue.hyps have p': "p' = p2" by (simp add: PurgeLoop_next)
  note ih = continue.IH [OF r]
  have "mset (queue p2) \<subseteq># mset (queue p)"
    using ih PurgeIteration_mset [where ps = ps and p = p] by (meson subset_mset.order_trans)
  then show ?case
    using ih PurgeIteration_alive [where ps = ps and p = p] by (simp add: p')
qed

lemma PurgeQueue_preserves:
  assumes "PurgeQueue c p = Inr p'"
  shows "handles p' = handles p \<and> current_memory p' = current_memory p
   \<and> maximum_memory p' = maximum_memory p
   \<and> memory_usage_per_tag p' = memory_usage_per_tag p
   \<and> purge_active p' = purge_active p
   \<and> mset (queue p') \<subseteq># mset (queue p)
   \<and> filter_mset (alive (handles p)) (mset (queue p'))
       = filter_mset (alive (handles p)) (mset (queue p))"
proof (cases "purge_active p")
  case True
  with assms show ?thesis by (simp add: PurgeQueue_def PurgeQueue_counted_def)
next
  case False
  let ?ps = "evict_queue_insertions p * PURGE_SIZE_MULTIPLIER c"
  let ?p2 = "p\<lparr>purge_active := True, evict_queue_insertions := evict_queue_insertions p - INSERT_INTERVAL c\<rparr>"
  show ?thesis
  proof (cases "size_approx (queue p) < ?ps * EARLY_OUT_MULTIPLIER c")
    case True
    with False assms show ?thesis by (auto simp: PurgeQueue_def PurgeQueue_counted_def Let_def)
  next
    case big: False
    obtain p3 k where r: "PurgeLoop c ?ps (size_approx (queue p) div ?ps) ?p2 = (p3, k)"
      by (cases "PurgeLoop c ?ps (size_approx (queue p) div ?ps) ?p2")
    have "p' = p3"
      using assms False big r
      by (auto simp: PurgeQueue_def PurgeQueue_counted_def Let_def split: if_splits)
    then show ?thesis using PurgeLoop_preserves [OF r] False by simp
  qed
qed










section \<open>The dead-node counter\<close>

text \<open>
  C9. The claim says that \<open>total_dead_nodes\<close> never wraps below zero. The code
  wraps it: the hint of \<open>pool_orphan\<close> was enqueued with timestamp 1, so nothing
  was added to the counter; its handle is gone, so \<open>EvictBlocks\<close> fails to get the
  handle and subtracts one from 0.
\<close>

theorem EvictBlocks_dead_nodes_wrap:
  "total_dead_nodes pool_orphan = 0
   \<and> EvictBlocks 0 0 0 False pool_orphan
       = Some (\<lparr>success = False, reservation = 0\<rparr>, None,
               pool_orphan\<lparr>queue := [], evict_queue_insertions := 0,
                           total_dead_nodes := 18446744073709551615\<rparr>)"
  by (simp add: eval_defs pool_orphan_def h0_def)

section \<open>Reachable pools\<close>

subsection \<open>No purge is left active\<close>

text \<open>
  Every operation that returns leaves \<open>purge_active\<close> as it found it, so it is
  clear in every reachable pool.
\<close>

lemma SetLimit_purge_active:
  assumes "SetLimit c x s p = Some (e, p')"
  shows "purge_active p' = purge_active p"
proof -
  obtain r1 o1 p1 where e1: "EvictBlocks (EXTENSION c) 0 x False p = Some (r1, o1, p1)"
    using assms by (auto simp: SetLimit_def SetLimit_second_pass_def split: option.splits)
  note k1 = EvictBlocks_exit [OF e1]
  show ?thesis
  proof (cases "success r1")
    case False
    then show ?thesis using assms e1 k1 by (auto simp: SetLimit_def SetLimit_second_pass_def Let_def)
  next
    case True
    let ?p2 = "(Resize0 (EXTENSION c) (reservation r1) p1)\<lparr>maximum_memory := x\<rparr>"
    obtain r2 o2 p3 where e2: "EvictBlocks (EXTENSION c) 0 x False ?p2 = Some (r2, o2, p3)"
      using assms e1 True by (auto simp: SetLimit_def SetLimit_second_pass_def Let_def split: option.splits)
    note k2 = EvictBlocks_exit [OF e2]
    have "purge_active p' = purge_active p3"
      using assms e1 e2 True by (auto simp: SetLimit_def SetLimit_second_pass_def Let_def split: if_splits)
    then show ?thesis using k1 k2 by simp
  qed
qed

lemma reachable_no_purge: "reachable c p \<Longrightarrow> \<not> purge_active p"
proof (induction rule: reachable.induct)
  case (created raw hs m)
  show ?case by (simp add: BufferPool_new_def)
next
  case (added p a h b p')
  then show ?case
    by (auto simp: AddToEvictionQueue_def Let_def split: if_splits)
next
  case (evicted p t e l buffer r out p')
  then show ?case using EvictBlocks_exit by blast
next
  case (swept p purge_size)
  then show ?case by simp
next
  case (purged p p')
  then show ?case using PurgeQueue_preserves [of c p p'] by simp
next
  case (limited p limit s e p')
  then show ?case using SetLimit_purge_active by blast
next
  case (charged p t sz)
  then show ?case by (simp add: IncreaseUsedMemory_def)
next
  case (stepped p hs')
  then show ?case by simp
qed

subsection \<open>Hint liveness\<close>

text \<open>
  The invariant \<open>hints_ordered\<close> gives I4.
\<close>

lemma distinct_map_filter_once:
  "distinct (map f xs) \<Longrightarrow> length (filter (\<lambda>x. f x = v) xs) \<le> 1"
proof (induction xs)
  case Nil
  then show ?case by simp
next
  case (Cons x xs)
  show ?case
  proof (cases "f x = v")
    case True
    with Cons.prems have "filter (\<lambda>x. f x = v) xs = []"
      by (auto simp: filter_empty_conv intro: rev_image_eqI)
    with True show ?thesis by simp
  next
    case False
    with Cons show ?thesis by simp
  qed
qed

lemma hints_ordered_liveness: "hints_ordered p \<Longrightarrow> hint_liveness p"
proof (unfold hint_liveness_def, intro allI impI)
  fix a h
  assume o: "hints_ordered p" and h: "handles p a = Some h"
  then have "distinct (map timestamp (filter (\<lambda>n. handle n = Some a) (queue p)))"
    by (simp add: hints_ordered_def hints_of_def)
  then have "length (filter (\<lambda>n. timestamp n = eviction_timestamp h)
               (filter (\<lambda>n. handle n = Some a) (queue p))) \<le> 1"
    by (rule distinct_map_filter_once)
  then show "length (filter (\<lambda>n. handle n = Some a \<and> timestamp n = eviction_timestamp h) (queue p)) \<le> 1"
    by (simp add: conj_commute)
qed

text \<open>
  Removing hints from the queue keeps the invariant, as long as the timestamps of
  the handles stay.
\<close>

lemma hints_of_sub:
  assumes "mset q' \<subseteq># mset q"
  shows "mset (hints_of a q') \<subseteq># mset (hints_of a q)"
proof -
  have "mset (hints_of a r) = image_mset timestamp (filter_mset (\<lambda>n. handle n = Some a) (mset r))"
    for r by (simp add: hints_of_def)
  then show ?thesis
    using assms by (simp add: image_mset_subseteq_mono multiset_filter_mono)
qed

lemma distinct_sub:
  assumes "mset ys \<subseteq># mset xs" and "distinct xs"
  shows "distinct ys"
proof -
  have le: "count (mset ys) a \<le> 1" for a
  proof -
    have "count (mset ys) a \<le> count (mset xs) a"
      using assms(1) by (rule mset_subset_eq_count)
    also have "\<dots> \<le> 1" using assms(2) by (simp add: distinct_count_atmost_1)
    finally show ?thesis .
  qed
  have "count (mset ys) a = (if a \<in> set ys then 1 else 0)" for a
  proof (cases "a \<in> set ys")
    case True
    then have "0 < count (mset ys) a" by simp
    with le [of a] have "count (mset ys) a = 1" by linarith
    with True show ?thesis by simp
  next
    case False
    then show ?thesis by simp
  qed
  then show ?thesis by (simp add: distinct_count_atmost_1)
qed

lemma hints_ordered_sub:
  assumes "hints_ordered p" and "mset (queue p') \<subseteq># mset (queue p)"
    and "\<And>a h'. handles p' a = Some h' \<Longrightarrow>
           \<exists>h. handles p a = Some h \<and> eviction_timestamp h' = eviction_timestamp h"
  shows "hints_ordered p'"
proof (unfold hints_ordered_def, intro allI impI)
  fix a h'
  assume "handles p' a = Some h'"
  then obtain h where h: "handles p a = Some h" and ts: "eviction_timestamp h' = eviction_timestamp h"
    using assms(3) by blast
  from assms(1) h have d: "distinct (hints_of a (queue p))"
    and le: "\<forall>ts \<in> set (hints_of a (queue p)). ts \<le> eviction_timestamp h"
    by (simp_all add: hints_ordered_def)
  note sub = hints_of_sub [OF assms(2), of a]
  have "distinct (hints_of a (queue p'))" using sub d by (rule distinct_sub)
  moreover have "set (hints_of a (queue p')) \<subseteq> set (hints_of a (queue p))"
    using set_mset_mono [OF sub] by simp
  ultimately show "distinct (hints_of a (queue p'))
      \<and> (\<forall>ts \<in> set (hints_of a (queue p')). ts \<le> eviction_timestamp h')"
    using le ts by auto
qed

lemma stamps_kept_refl [simp]: "stamps_kept hs hs"
  by (simp add: stamps_kept_def)

lemma stamps_kept_trans: "stamps_kept hs hs' \<Longrightarrow> stamps_kept hs' hs'' \<Longrightarrow> stamps_kept hs hs''"
  unfolding stamps_kept_def by fastforce

lemma stamps_kept_unload:
  "hs a = Some h \<Longrightarrow> stamps_kept hs (hs(a \<mapsto> h\<lparr>state := BLOCK_UNLOADED\<rparr>))"
  by (auto simp: stamps_kept_def)

lemma hints_ordered_kept:
  assumes "hints_ordered p" and "mset (queue p') \<subseteq># mset (queue p)"
    and "stamps_kept (handles p) (handles p')"
  shows "hints_ordered p'"
  using assms(1,2) by (rule hints_ordered_sub) (use assms(3) in \<open>simp add: stamps_kept_def\<close>)

text \<open>
  Eviction removes hints and unloads blocks: it writes no timestamp.
\<close>

lemma EvictLoop_queue_handles:
  "EvictLoop t e l b p = Some (r, out, p') \<Longrightarrow>
   mset (queue p') \<subseteq># mset (queue p) \<and> stamps_kept (handles p) (handles p')"
proof (induction p rule: EvictLoop_cases_induct [where l = l and b = b and e = e])
  case (finished p)
  then show ?case by (auto simp: EvictLoop_done)
next
  case (spin p)
  then show ?case by (simp add: EvictLoop_spin)
next
  case (empty p p1)
  then show ?case
    using dequeue_node_fields [OF empty(2)] dequeue_node_queue [OF empty(2)]
    by (auto simp: EvictLoop_empty)
next
  case (skip p p1 node)
  note f = dequeue_node_fields [OF skip(2)]
  have q: "queue p = node # queue p1" using dequeue_node_queue [OF skip(2)] by simp
  have "mset (queue p') \<subseteq># mset (queue p1) \<and> stamps_kept (handles p1) (handles p')"
    using skip by (simp add: EvictLoop_skip)
  then show ?case using f q by (auto intro: subset_mset.order_trans)
next
  case (take p p1 node a h)
  note f = dequeue_node_fields [OF take(2)]
  have q: "queue p = node # queue p1" using dequeue_node_queue [OF take(2)] by simp
  have h: "handles p1 a = Some h" using TryGetBlockHandle_SomeD [OF take(3)] by simp
  have "p' = UnloadAndTakeBlock a h (dequeued p1)" using take by (simp add: EvictLoop_take)
  then have "queue p' = queue p1"
    and "handles p' = (handles p1)(a \<mapsto> h\<lparr>state := BLOCK_UNLOADED\<rparr>)" by simp_all
  then show ?case using f q stamps_kept_unload [of "handles p1" a h, OF h] by (simp add: fun_upd_def)
next
  case (unload p p1 node a h)
  note f = dequeue_node_fields [OF unload(2)]
  have q: "queue p = node # queue p1" using dequeue_node_queue [OF unload(2)] by simp
  have h: "handles p1 a = Some h" using TryGetBlockHandle_SomeD [OF unload(3)] by simp
  have "mset (queue p') \<subseteq># mset (queue p1)
        \<and> stamps_kept ((handles p1)(a \<mapsto> h\<lparr>state := BLOCK_UNLOADED\<rparr>)) (handles p')"
    using unload by (simp add: EvictLoop_unload fun_upd_def)
  then show ?case
    using f q stamps_kept_trans [OF stamps_kept_unload [of "handles p1" a h, OF h]]
    by (auto intro: subset_mset.order_trans)
qed

lemma EvictBlocks_queue_handles:
  "EvictBlocks t e l b p = Some (r, out, p') \<Longrightarrow>
   mset (queue p') \<subseteq># mset (queue p) \<and> stamps_kept (handles p) (handles p')"
  using EvictLoop_queue_handles [of t e l b "TempBufferPoolReservation t e p" r out p']
  by (simp add: EvictBlocks_def)

lemma SetLimit_queue_handles:
  assumes "SetLimit c x s p = Some (e, p')"
  shows "mset (queue p') \<subseteq># mset (queue p) \<and> stamps_kept (handles p) (handles p')"
proof -
  obtain r1 o1 p1 where e1: "EvictBlocks (EXTENSION c) 0 x False p = Some (r1, o1, p1)"
    using assms by (auto simp: SetLimit_def SetLimit_second_pass_def split: option.splits)
  note k1 = EvictBlocks_queue_handles [OF e1]
  show ?thesis
  proof (cases "success r1")
    case False
    then show ?thesis using assms e1 k1 by (auto simp: SetLimit_def SetLimit_second_pass_def Let_def)
  next
    case True
    let ?p2 = "(Resize0 (EXTENSION c) (reservation r1) p1)\<lparr>maximum_memory := x\<rparr>"
    obtain r2 o2 p3 where e2: "EvictBlocks (EXTENSION c) 0 x False ?p2 = Some (r2, o2, p3)"
      using assms e1 True by (auto simp: SetLimit_def SetLimit_second_pass_def Let_def split: option.splits)
    note k2 = EvictBlocks_queue_handles [OF e2]
    have "queue p' = queue p3 \<and> handles p' = handles p3"
      using assms e1 e2 True by (auto simp: SetLimit_def SetLimit_second_pass_def Let_def split: if_splits)
    then show ?thesis
      using k1 k2 stamps_kept_trans [of "handles p" "handles p1" "handles p3"]
      by (auto intro: subset_mset.order_trans)
  qed
qed

text \<open>
  Adding a hint keeps the invariant: the new timestamp is above all earlier ones
  of the handle, unless the 64-bit counter wraps.
\<close>

lemma word_succ_above:
  fixes x :: idx_t
  assumes "x \<noteq> - 1" and "ts \<le> x"
  shows "ts < x + 1"
proof -
  have "x + 1 \<noteq> 0" using assms(1) by (simp add: eq_neg_iff_add_eq_0)
  then have "unat (x + 1) = Suc (unat x)" using unatSuc [of x] by (simp add: add.commute)
  then show ?thesis using assms(2) by (simp add: word_less_nat_alt word_le_nat_alt)
qed

lemma hints_ordered_add:
  assumes "hints_ordered p" and "handles p a = Some h" and "eviction_timestamp h \<noteq> - 1"
    and "AddToEvictionQueue c a p = Inr (b, p')"
  shows "hints_ordered p'"
proof -
  let ?ts = "eviction_timestamp h + 1"
  have r0: "readers h = 0" using assms(2,4) by (auto simp: AddToEvictionQueue_def split: if_splits)
  have hs: "handles p' = (handles p)(a \<mapsto> h\<lparr>eviction_timestamp := ?ts\<rparr>)"
    and q: "queue p' = queue p @ [\<lparr>handle = Some a, timestamp = ?ts\<rparr>]"
    using assms(2,4) r0 by (auto simp: AddToEvictionQueue_def Let_def enqueue_def split: if_splits)
  show ?thesis
  proof (unfold hints_ordered_def, intro allI impI)
    fix a' h'
    assume h': "handles p' a' = Some h'"
    show "distinct (hints_of a' (queue p'))
          \<and> (\<forall>ts \<in> set (hints_of a' (queue p')). ts \<le> eviction_timestamp h')"
    proof (cases "a' = a")
      case True
      with h' hs have e: "eviction_timestamp h' = ?ts" by auto
      from assms(1,2) have d: "distinct (hints_of a (queue p))"
        and le: "\<forall>ts \<in> set (hints_of a (queue p)). ts \<le> eviction_timestamp h"
        by (simp_all add: hints_ordered_def)
      have lt: "\<forall>ts \<in> set (hints_of a (queue p)). ts < ?ts"
        using le word_succ_above [OF assms(3)] by blast
      have "hints_of a (queue p') = hints_of a (queue p) @ [?ts]"
        by (simp add: q hints_of_def)
      then show ?thesis using True d lt e by (auto simp: less_imp_le)
    next
      case False
      with h' hs have "handles p a' = Some h'" by auto
      moreover have "hints_of a' (queue p') = hints_of a' (queue p)"
        using False by (simp add: q hints_of_def)
      ultimately show ?thesis using assms(1) by (simp add: hints_ordered_def)
    qed
  qed
qed

text \<open>
  A step of the callers keeps the invariant.
\<close>

lemma hints_ordered_step:
  assumes "hints_ordered p" and "same_stamps (queue p) (handles p) hs'"
  shows "hints_ordered (p\<lparr>handles := hs'\<rparr>)"
proof (unfold hints_ordered_def, intro allI impI)
  fix a h'
  assume "handles (p\<lparr>handles := hs'\<rparr>) a = Some h'"
  then have h': "hs' a = Some h'" by simp
  show "distinct (hints_of a (queue (p\<lparr>handles := hs'\<rparr>)))
        \<and> (\<forall>ts \<in> set (hints_of a (queue (p\<lparr>handles := hs'\<rparr>))). ts \<le> eviction_timestamp h')"
  proof (cases "handles p a")
    case None
    have "case handles p a of
            Some h \<Rightarrow> eviction_timestamp h' = eviction_timestamp h
          | None \<Rightarrow> \<forall>n \<in> set (queue p). handle n \<noteq> Some a"
      using assms(2) h' unfolding same_stamps_def by blast
    with None have "\<forall>n \<in> set (queue p). handle n \<noteq> Some a" by simp
    then have "hints_of a (queue p) = []" by (simp add: hints_of_def filter_empty_conv)
    then show ?thesis by simp
  next
    case (Some h)
    have "case handles p a of
            Some h \<Rightarrow> eviction_timestamp h' = eviction_timestamp h
          | None \<Rightarrow> \<forall>n \<in> set (queue p). handle n \<noteq> Some a"
      using assms(2) h' unfolding same_stamps_def by blast
    with Some have "eviction_timestamp h' = eviction_timestamp h" by simp
    with assms(1) Some show ?thesis by (simp add: hints_ordered_def)
  qed
qed

lemma reachable_hints_ordered: "reachable c p \<Longrightarrow> hints_ordered p"
proof (induction rule: reachable.induct)
  case (created raw hs m)
  show ?case by (simp add: hints_ordered_def hints_of_def BufferPool_new_def)
next
  case (added p a h b p')
  then show ?case by (auto intro: hints_ordered_add)
next
  case (evicted p t e l buffer r out p')
  then show ?case using EvictBlocks_queue_handles by (blast intro: hints_ordered_kept)
next
  case (swept p purge_size)
  then show ?case
    using PurgeIteration_mset [where ps = purge_size and p = p]
    by (auto intro: hints_ordered_kept)
next
  case (purged p p')
  then show ?case using PurgeQueue_preserves [of c p p'] by (auto intro: hints_ordered_kept)
next
  case (limited p limit s e p')
  then show ?case using SetLimit_queue_handles by (blast intro: hints_ordered_kept)
next
  case (charged p t sz)
  then show ?case by (simp add: hints_ordered_def IncreaseUsedMemory_def)
next
  case (stepped p hs')
  then show ?case by (auto intro: hints_ordered_step)
qed

lemma reachable_pool_stale: "reachable spec_defaults pool_stale"
proof -
  let ?new = "BufferPool_new spec_defaults [0, 0] [0 \<mapsto> h0] 100"
  have "reachable spec_defaults ?new" by (rule reachable.created)
  then have "reachable spec_defaults (IncreaseUsedMemory 0 40 ?new)" by (rule reachable.charged)
  moreover have "handles (IncreaseUsedMemory 0 40 ?new) 0 = Some h0"
    by (simp add: IncreaseUsedMemory_def BufferPool_new_def)
  moreover have "eviction_timestamp h0 \<noteq> - 1" by (simp add: h0_def)
  ultimately have "reachable spec_defaults pool_one"
    using pool_one_run by (rule reachable.added)
  moreover have "handles pool_one 0 = Some (h0\<lparr>eviction_timestamp := 1\<rparr>)"
    by (simp add: pool_one_def)
  moreover have "eviction_timestamp (h0\<lparr>eviction_timestamp := 1\<rparr>) \<noteq> - 1" by simp
  ultimately show ?thesis using pool_stale_run by (rule reachable.added)
qed

text \<open>
  C6. In every pool that the operations of the pool and the steps of its callers
  lead to from a new pool, each live handle has at most one hint in the queue
  whose timestamp is the handle's current \<open>eviction_timestamp\<close>. The invariant
  behind it (\<open>hints_ordered\<close>) is kept by \<open>AddToEvictionQueue\<close>, whose new hint
  carries a timestamp above all earlier ones, and by \<open>EvictBlocks\<close>, \<open>SetLimit\<close>,
  \<open>PurgeIteration\<close> and \<open>PurgeQueue\<close>, which only remove hints and leave the
  timestamps alone.
\<close>

theorem reachable_hint_liveness:
  assumes "reachable c p" and "handles p a = Some h"
  shows "length (filter (\<lambda>n. handle n = Some a \<and> timestamp n = eviction_timestamp h) (queue p)) \<le> 1"
  using hints_ordered_liveness [OF reachable_hints_ordered [OF assms(1)]] assms(2)
  by (simp add: hint_liveness_def)

text \<open>
  \<open>pool_stale\<close> is such a pool; of its two hints for block 0 the second is the
  live one.
\<close>

theorem reachable_hint_liveness_witness:
  "reachable spec_defaults pool_stale
   \<and> handles pool_stale 0 = Some (h0\<lparr>eviction_timestamp := 2\<rparr>)
   \<and> filter (\<lambda>n. handle n = Some 0 \<and> timestamp n = eviction_timestamp (h0\<lparr>eviction_timestamp := 2\<rparr>))
        (queue pool_stale) = [\<lparr>handle = Some 0, timestamp = 2\<rparr>]
   \<and> length (filter (\<lambda>n. handle n = Some 0 \<and> timestamp n = eviction_timestamp (h0\<lparr>eviction_timestamp := 2\<rparr>))
        (queue pool_stale)) \<le> 1"
proof -
  have h: "handles pool_stale 0 = Some (h0\<lparr>eviction_timestamp := 2\<rparr>)"
    by (simp add: pool_stale_def)
  have "filter (\<lambda>n. handle n = Some 0 \<and> timestamp n = eviction_timestamp (h0\<lparr>eviction_timestamp := 2\<rparr>))
        (queue pool_stale) = [\<lparr>handle = Some 0, timestamp = 2\<rparr>]"
    by (simp add: pool_stale_def)
  then show ?thesis
    using reachable_pool_stale h reachable_hint_liveness [OF reachable_pool_stale h]
    by simp
qed

end
